theory Spec2Isabelle
  imports Main "HOL-Library.Sublist"
begin

section \<open>Data model of the mod configuration manager\<close>

text \<open>
  The manager (\<^verbatim>\<open>ModConfigManager\<close> in \<^verbatim>\<open>src/config/mod_config_manager.py\<close>) keeps two
  lists, \<^verbatim>\<open>self.packages\<close> and \<^verbatim>\<open>self.natives\<close>, of dataclass objects. Each method is
  modelled as a function over exactly the fields of \<^verbatim>\<open>self\<close> it reads or writes and returns
  the updated field next to the Python return value.

  Strings are byte lists holding the UTF-8 encoding of the Python string. Equality,
  \<^verbatim>\<open>endswith\<close>, \<^verbatim>\<open>replace\<close> and \<^verbatim>\<open>in\<close> agree on code points and on their UTF-8 encoding.

  An ordering constraint is a Python dict. The source reads the key \<^verbatim>\<open>'id'\<close> with
  \<^verbatim>\<open>dep.get('id', '')\<close> in some places and with \<^verbatim>\<open>dep.get('id')\<close> in others, so a missing
  key is kept apart from an empty string. Where the key is present its value is a string,
  as in every dict the source builds.

  Every entity owns its two lists: the source builds a fresh list whenever it stores one
  and never hands one list to two entities, so a list is a value of the record, and the
  one in-place \<^verbatim>\<open>append\<close> of the source is an update of the entity it belongs to. A loop
  over \<^verbatim>\<open>self.packages\<close> or \<^verbatim>\<open>self.natives\<close> that assigns to the element it visits is a
  \<open>map\<close>; an assignment to the object a search found is a list update at its position.
\<close>

record dep =
  dep_id :: "string option"
  dep_optional :: "bool option"

record ModPackage =
  pkg_id :: string
  pkg_source :: string
  pkg_load_after :: "dep list option"
  pkg_load_before :: "dep list option"
  pkg_enabled :: bool
  pkg_is_external :: bool
  pkg_comment :: string

record ModNative =
  path :: string
  optional :: bool
  enabled :: bool
  initializer :: "string option"
  finalizer :: "string option"
  load_after :: "dep list option"
  load_before :: "dep list option"
  load_early :: bool
  is_external :: bool
  comment :: string

text \<open>Python truthiness of an \<^verbatim>\<open>Optional[List]\<close>: neither \<^verbatim>\<open>None\<close> nor empty.\<close>

definition truthy :: "'a list option \<Rightarrow> bool" where
  "truthy l = (case l of None \<Rightarrow> False | Some xs \<Rightarrow> xs \<noteq> [])"

text \<open>The elements a \<^verbatim>\<open>for\<close> loop visits once the list is known to be truthy.\<close>

definition deps :: "'a list option \<Rightarrow> 'a list" where
  "deps l = (case l of None \<Rightarrow> [] | Some xs \<Rightarrow> xs)"

text \<open>\<^verbatim>\<open>xs if xs else None\<close>\<close>

definition none_if_empty :: "'a list \<Rightarrow> 'a list option" where
  "none_if_empty xs = (if xs = [] then None else Some xs)"

text \<open>\<^verbatim>\<open>dep.get('id', '')\<close>\<close>

definition get_id :: "dep \<Rightarrow> string" where
  "get_id d = (case dep_id d of None \<Rightarrow> [] | Some s \<Rightarrow> s)"

text \<open>\<^verbatim>\<open>{"id": x, "optional": o}\<close>\<close>

definition mk_dep :: "string \<Rightarrow> bool \<Rightarrow> dep" where
  "mk_dep x b = \<lparr>dep_id = Some x, dep_optional = Some b\<rparr>"

subsection \<open>Strings\<close>

text \<open>The decoration the user interface appends to external mods: a space, an opening
  parenthesis, the two CJK characters U+5916 U+90E8 and a closing parenthesis. The comments
  below write it \<^verbatim>\<open>" (external)"\<close>.\<close>

definition external_mark :: string where
  "external_mark = [CHR '' '', CHR ''('', CHR 0xE5, CHR 0xA4, CHR 0x96,
                    CHR 0xE9, CHR 0x83, CHR 0xA8, CHR '')'']"

text \<open>\<^verbatim>\<open>s.replace(old, "")\<close>: the occurrences of \<open>old\<close> are removed from left to right,
  without overlap. With an empty \<open>old\<close> Python returns \<open>s\<close>.\<close>

fun py_remove :: "'a list \<Rightarrow> 'a list \<Rightarrow> 'a list" where
  "py_remove old [] = []"
| "py_remove old (c # cs) =
     (if old \<noteq> [] \<and> prefix old (c # cs)
      then py_remove old (drop (length old - 1) cs)
      else c # py_remove old cs)"

text \<open>\<^verbatim>\<open>name.replace(" (external)", "")\<close>, the first line of most methods.\<close>

definition clean :: "string \<Rightarrow> string" where
  "clean s = py_remove external_mark s"

text \<open>\<^verbatim>\<open>clean = s.replace(mark, "") if s.endswith(mark) else s\<close> of \<^verbatim>\<open>add_package\<close>
  and \<^verbatim>\<open>add_native\<close>.\<close>

definition ends_external :: "string \<Rightarrow> bool" where
  "ends_external s = suffix external_mark s"

definition clean_if_external :: "string \<Rightarrow> string" where
  "clean_if_external s = (if ends_external s then clean s else s)"

text \<open>\<^verbatim>\<open>sub in s\<close> on strings.\<close>

fun contains :: "'a list \<Rightarrow> 'a list \<Rightarrow> bool" where
  "contains sub [] = (sub = [])"
| "contains sub (c # cs) = (prefix sub (c # cs) \<or> contains sub cs)"

text \<open>\<^verbatim>\<open>s.lower()\<close> on the ASCII letters. Python also maps non-ASCII letters; none of
  them is mapped to a character of the two fragments searched for below, so membership of
  those fragments is decided alike.\<close>

definition lower_char :: "char \<Rightarrow> char" where
  "lower_char c =
     (let n = (of_char c :: nat) in if 65 \<le> n \<and> n \<le> 90 then char_of (n + 32) else c)"

definition lower :: "string \<Rightarrow> string" where
  "lower s = map lower_char s"

text \<open>\<^verbatim>\<open>Path(p).name\<close> belongs to the Python library. Every function below takes the
  name function as its first argument \<open>nm\<close>, and the general theorems hold for any such
  function. The closed examples use \<open>path_name\<close>: the part after the last separator,
  which is what pathlib returns for a path without trailing separator, dot segment or
  drive prefix.\<close>

fun path_name_acc :: "string \<Rightarrow> string \<Rightarrow> string" where
  "path_name_acc acc [] = acc"
| "path_name_acc acc (c # cs) =
     (if c = CHR ''/'' \<or> c = CHR 0x5C then path_name_acc [] cs
      else path_name_acc (acc @ [c]) cs)"

definition path_name :: "string \<Rightarrow> string" where
  "path_name p = path_name_acc [] p"

subsection \<open>Matching a native against a name\<close>

text \<open>\<^verbatim>\<open>Path(native.path).name == c or native.path == c or native.path.endswith(c)\<close>\<close>

definition matches :: "(string \<Rightarrow> string) \<Rightarrow> ModNative \<Rightarrow> string \<Rightarrow> bool" where
  "matches nm n c = (nm (path n) = c \<or> path n = c \<or> suffix c (path n))"

text \<open>The index of the first element a \<^verbatim>\<open>for ... break\<close> search stops at.\<close>

fun first_index :: "('a \<Rightarrow> bool) \<Rightarrow> 'a list \<Rightarrow> nat option" where
  "first_index P [] = None"
| "first_index P (x # xs) =
     (if P x then Some 0 else map_option Suc (first_index P xs))"

section \<open>Adding entities\<close>


fun native_exists :: "string \<Rightarrow> ModNative list \<Rightarrow> bool" where
  "native_exists c [] = False"
| "native_exists c (n # ns) = (if path n = c then True else native_exists c ns)"


text \<open>The test that turns \<^verbatim>\<open>load_early\<close> on:
  \<^verbatim>\<open>"seamlesscoop" in clean_path.lower() and "nrsc.dll" in clean_path.lower()\<close>\<close>

definition is_coop_core :: "string \<Rightarrow> bool" where
  "is_coop_core p = (contains ''seamlesscoop'' (lower p) \<and> contains ''nrsc.dll'' (lower p))"

text \<open>\<^verbatim>\<open>add_native(dll_path, optional, enabled, load_early)\<close>; \<open>ext\<close> is
  \<^verbatim>\<open>self.external_natives\<close>.\<close>

definition add_native ::
  "(string \<rightharpoonup> string) \<Rightarrow> ModNative list \<Rightarrow> string \<Rightarrow> bool \<Rightarrow> bool \<Rightarrow> bool
     \<Rightarrow> bool \<times> ModNative list" where
  "add_native ext ns dll_path opt en le =
     (let is_ext = ends_external dll_path;
          clean_path = (if is_ext then clean dll_path else dll_path)
      in if native_exists clean_path ns then (False, ns)
         else
           let actual_path =
                 (if is_ext then (case ext clean_path of Some p \<Rightarrow> p | None \<Rightarrow> clean_path)
                  else clean_path);
               le' = (if \<not> le \<and> is_coop_core clean_path then True else le)
           in (True, ns @ [\<lparr>path = actual_path, optional = opt, enabled = en,
                            initializer = None, finalizer = None,
                            load_after = None, load_before = None,
                            load_early = le', is_external = is_ext,
                            comment = []\<rparr>]))"

section \<open>Pairwise order of two natives\<close>

text \<open>The search loop of \<^verbatim>\<open>set_specific_dll_order\<close>. It has no \<^verbatim>\<open>break\<close>: the last
  native matching the first name wins, and a native that matches the first name is never
  tried against the second (\<^verbatim>\<open>elif\<close>). \<open>i\<close> is the position of the head of the list,
  \<open>f\<close> and \<open>s\<close> are \<^verbatim>\<open>first_native\<close> and \<^verbatim>\<open>second_native\<close> as positions.\<close>

fun find_order_pair ::
  "(string \<Rightarrow> string) \<Rightarrow> string \<Rightarrow> string \<Rightarrow> ModNative list \<Rightarrow> nat
     \<Rightarrow> nat option \<Rightarrow> nat option \<Rightarrow> nat option \<times> nat option" where
  "find_order_pair nm fc sc [] i f s = (f, s)"
| "find_order_pair nm fc sc (n # ns) i f s =
     (if matches nm n fc then find_order_pair nm fc sc ns (Suc i) (Some i) s
      else if matches nm n sc then find_order_pair nm fc sc ns (Suc i) f (Some i)
      else find_order_pair nm fc sc ns (Suc i) f s)"

text \<open>\<^verbatim>\<open>dep.get('id') == x\<close> for some \<open>dep\<close> of the list.\<close>

definition has_dep :: "string \<Rightarrow> dep list \<Rightarrow> bool" where
  "has_dep x l = list_ex (\<lambda>d. dep_id d = Some x) l"

text \<open>\<^verbatim>\<open>_would_create_circular_dependency(first_dll, second_dll)\<close>\<close>

definition would_create_circular_dependency ::
  "(string \<Rightarrow> string) \<Rightarrow> ModNative list \<Rightarrow> string \<Rightarrow> string \<Rightarrow> bool" where
  "would_create_circular_dependency nm ns first_dll second_dll =
     list_ex (\<lambda>n. enabled n \<and> nm (path n) = second_dll \<and> truthy (load_before n)
                  \<and> has_dep first_dll (deps (load_before n))) ns"

text \<open>\<^verbatim>\<open>_remove_reverse_dependency(from_dll, to_dll)\<close>\<close>

definition remove_reverse_dependency ::
  "(string \<Rightarrow> string) \<Rightarrow> ModNative list \<Rightarrow> string \<Rightarrow> string \<Rightarrow> ModNative list" where
  "remove_reverse_dependency nm ns from_dll to_dll =
     map (\<lambda>n. if enabled n \<and> nm (path n) = from_dll \<and> truthy (load_before n)
              then n\<lparr>load_before :=
                       none_if_empty (filter (\<lambda>d. dep_id d \<noteq> Some to_dll)
                                        (deps (load_before n)))\<rparr>
              else n) ns"

text \<open>The part of \<^verbatim>\<open>set_specific_dll_order\<close> after both natives were found at the
  positions \<open>fi\<close> and \<open>si\<close> and seen to be enabled.\<close>

definition add_order_edge ::
  "(string \<Rightarrow> string) \<Rightarrow> ModNative list \<Rightarrow> nat \<Rightarrow> nat \<Rightarrow> ModNative list" where
  "add_order_edge nm ns fi si =
     (let second_dll_name = nm (path (ns ! si));
          first_dll_name = nm (path (ns ! fi));
          ns1 = (if would_create_circular_dependency nm ns first_dll_name second_dll_name
                 then remove_reverse_dependency nm ns second_dll_name first_dll_name
                 else ns);
          lb = (if truthy (load_before (ns1 ! fi)) then deps (load_before (ns1 ! fi)) else []);
          lb' = (if has_dep second_dll_name lb then lb
                 else lb @ [mk_dep second_dll_name False])
      in ns1[fi := (ns1 ! fi)\<lparr>load_before := Some lb'\<rparr>])"

text \<open>\<^verbatim>\<open>set_specific_dll_order(first_dll, second_dll)\<close>\<close>

definition set_specific_dll_order ::
  "(string \<Rightarrow> string) \<Rightarrow> ModNative list \<Rightarrow> string \<Rightarrow> string \<Rightarrow> bool \<times> ModNative list" where
  "set_specific_dll_order nm ns first_dll second_dll =
     (case find_order_pair nm (clean first_dll) (clean second_dll) ns 0 None None of
        (Some fi, Some si) \<Rightarrow>
          if \<not> enabled (ns ! fi) \<or> \<not> enabled (ns ! si) then (False, ns)
          else (True, add_order_edge nm ns fi si)
      | _ \<Rightarrow> (False, ns))"

text \<open>The table of fixed orders, written out in four methods of the source.\<close>

definition specific_orders :: "(string \<times> string) list" where
  "specific_orders = [(''nighter.dll'', ''nrsc.dll'')]"

text \<open>\<^verbatim>\<open>ensure_specific_dll_orders()\<close>: one round of the outer loop per table entry. The
  inner loop sets \<^verbatim>\<open>first_enabled\<close> and, in its \<^verbatim>\<open>elif\<close>, \<^verbatim>\<open>second_enabled\<close>.\<close>

fun ensure_orders_loop ::
  "(string \<Rightarrow> string) \<Rightarrow> ModNative list \<Rightarrow> (string \<times> string) list \<Rightarrow> ModNative list" where
  "ensure_orders_loop nm ns [] = ns"
| "ensure_orders_loop nm ns ((first_dll, second_dll) # rest) =
     (let first_enabled = list_ex (\<lambda>n. nm (path n) = first_dll \<and> enabled n) ns;
          second_enabled =
            list_ex (\<lambda>n. \<not> (nm (path n) = first_dll \<and> enabled n)
                         \<and> nm (path n) = second_dll \<and> enabled n) ns
      in ensure_orders_loop nm
           (if first_enabled \<and> second_enabled
            then snd (set_specific_dll_order nm ns first_dll second_dll) else ns)
           rest)"

definition ensure_specific_dll_orders ::
  "(string \<Rightarrow> string) \<Rightarrow> ModNative list \<Rightarrow> ModNative list" where
  "ensure_specific_dll_orders nm ns = ensure_orders_loop nm ns specific_orders"

section \<open>Reconciliation after enabling or disabling\<close>

text \<open>\<^verbatim>\<open>enabled_package_ids\<close> and \<^verbatim>\<open>enabled_native_ids\<close> of
  \<^verbatim>\<open>update_load_dependencies\<close>.\<close>

definition enabled_package_ids :: "ModPackage list \<Rightarrow> string set" where
  "enabled_package_ids ps = set (map pkg_id (filter pkg_enabled ps))"

definition enabled_native_ids :: "(string \<Rightarrow> string) \<Rightarrow> ModNative list \<Rightarrow> string set" where
  "enabled_native_ids nm ns = set (map (\<lambda>n. nm (path n)) (filter enabled ns))"

text \<open>The filter applied to one truthy list: keep \<open>dep\<close> when \<^verbatim>\<open>dep.get('id', '')\<close> is
  enabled, and store \<^verbatim>\<open>None\<close> when nothing is left. A list that is not truthy is not
  touched.\<close>

definition keep_enabled :: "string set \<Rightarrow> dep list option \<Rightarrow> dep list option" where
  "keep_enabled E l =
     (if truthy l then none_if_empty (filter (\<lambda>d. get_id d \<in> E) (deps l)) else l)"

text \<open>\<^verbatim>\<open>update_load_dependencies()\<close>. Of a package only \<^verbatim>\<open>load_after\<close> is filtered; of a
  native both lists. The method ends with \<^verbatim>\<open>ensure_specific_dll_orders()\<close>.\<close>

definition update_load_dependencies ::
  "(string \<Rightarrow> string) \<Rightarrow> ModPackage list \<Rightarrow> ModNative list
     \<Rightarrow> ModPackage list \<times> ModNative list" where
  "update_load_dependencies nm ps ns =
     (let pids = enabled_package_ids ps;
          nids = enabled_native_ids nm ns;
          ps' = map (\<lambda>p. p\<lparr>pkg_load_after := keep_enabled pids (pkg_load_after p)\<rparr>) ps;
          ns' = map (\<lambda>n. n\<lparr>load_before := keep_enabled nids (load_before n),
                            load_after := keep_enabled nids (load_after n)\<rparr>) ns
      in (ps', ensure_specific_dll_orders nm ns'))"

section \<open>Force last (packages)\<close>

text \<open>\<^verbatim>\<open>other_enabled_mods\<close>: ids of the enabled packages whose id is not \<open>clean_id\<close>, in
  list order.\<close>

definition other_enabled_mods :: "ModPackage list \<Rightarrow> string \<Rightarrow> string list" where
  "other_enabled_mods ps clean_id =
     map pkg_id (filter (\<lambda>p. pkg_enabled p \<and> pkg_id p \<noteq> clean_id) ps)"

text \<open>\<^verbatim>\<open>set_force_load_last(mod_id)\<close>. The comparison \<^verbatim>\<open>other_pkg != target_package\<close> is
  the field-wise inequality of \<^verbatim>\<open>@dataclass\<close>; the target is not changed while the
  clearing loop runs.\<close>

definition set_force_load_last ::
  "ModPackage list \<Rightarrow> string \<Rightarrow> bool \<times> ModPackage list" where
  "set_force_load_last ps mod_id =
     (let clean_id = clean mod_id in
      case first_index (\<lambda>p. pkg_id p = clean_id) ps of
        None \<Rightarrow> (False, ps)
      | Some i \<Rightarrow>
          let target_package = ps ! i;
              ps1 = map (\<lambda>other_pkg. if other_pkg \<noteq> target_package
                                      then other_pkg\<lparr>pkg_load_after := None\<rparr>
                                      else other_pkg) ps;
              others = other_enabled_mods ps1 clean_id
          in if others = [] then (True, ps1[i := (ps1 ! i)\<lparr>pkg_load_after := None\<rparr>])
             else (True, ps1[i := (ps1 ! i)\<lparr>pkg_load_after :=
                                             Some (map (\<lambda>m. mk_dep m True) others)\<rparr>]))"

text \<open>The two sets \<^verbatim>\<open>is_force_load_last\<close> builds by \<^verbatim>\<open>set.add\<close> in a loop.\<close>

fun add_other_enabled :: "string \<Rightarrow> ModPackage list \<Rightarrow> string set \<Rightarrow> string set" where
  "add_other_enabled clean_id [] acc = acc"
| "add_other_enabled clean_id (p # ps) acc =
     add_other_enabled clean_id ps
       (if pkg_enabled p \<and> pkg_id p \<noteq> clean_id then insert (pkg_id p) acc else acc)"

fun add_load_after_ids :: "dep list \<Rightarrow> string set \<Rightarrow> string set" where
  "add_load_after_ids [] acc = acc"
| "add_load_after_ids (d # ds) acc =
     add_load_after_ids ds (case dep_id d of Some x \<Rightarrow> insert x acc | None \<Rightarrow> acc)"

text \<open>\<^verbatim>\<open>is_force_load_last(mod_id)\<close>. The last line of the source compares an integer
  with \<^verbatim>\<open>len(other_enabled_mods) * 0.5\<close>; halving is exact in floating point for every
  length a list can have, so the test is \<open>n \<le> 2 * c\<close>.\<close>

definition is_force_load_last :: "ModPackage list \<Rightarrow> string \<Rightarrow> bool" where
  "is_force_load_last ps mod_id =
     (let clean_id = clean mod_id in
      case first_index (\<lambda>p. pkg_id p = clean_id) ps of
        None \<Rightarrow> False
      | Some i \<Rightarrow>
          if \<not> truthy (pkg_load_after (ps ! i)) then False
          else
            let other_enabled = add_other_enabled clean_id ps {};
                load_after_ids = add_load_after_ids (deps (pkg_load_after (ps ! i))) {}
            in if card other_enabled = 0 then False
               else
                 let intersection_count = card (load_after_ids \<inter> other_enabled)
                 in if card other_enabled \<le> 3 then 1 \<le> intersection_count
                    else card other_enabled \<le> 2 * intersection_count)"

section \<open>Force first (natives)\<close>

text \<open>\<^verbatim>\<open>other_dlls\<close>: file names of the enabled natives that differ from \<open>n\<close>, in list order
  (\<^verbatim>\<open>other_native != native\<close>, field-wise).\<close>

definition other_dll_names ::
  "(string \<Rightarrow> string) \<Rightarrow> ModNative list \<Rightarrow> ModNative \<Rightarrow> string list" where
  "other_dll_names nm ns n = map (\<lambda>x. nm (path x)) (filter (\<lambda>x. enabled x \<and> x \<noteq> n) ns)"



text \<open>\<^verbatim>\<open>_has_only_specific_order_deps(native)\<close>\<close>

definition has_only_specific_order_deps :: "(string \<Rightarrow> string) \<Rightarrow> ModNative \<Rightarrow> bool" where
  "has_only_specific_order_deps nm n =
     (if \<not> truthy (load_before n) then False
      else list_all (\<lambda>d. list_ex (\<lambda>(first, second). nm (path n) = first \<and> get_id d = second)
                               specific_orders)
             (deps (load_before n)))"

text \<open>\<^verbatim>\<open>_dll_depends_on(dll_name, target_dll)\<close>\<close>

definition dll_depends_on ::
  "(string \<Rightarrow> string) \<Rightarrow> ModNative list \<Rightarrow> string \<Rightarrow> string \<Rightarrow> bool" where
  "dll_depends_on nm ns dll_name target_dll =
     list_ex (\<lambda>n. enabled n \<and> nm (path n) = dll_name \<and> truthy (load_before n)
                  \<and> has_dep target_dll (deps (load_before n))) ns"

text \<open>The test of the optimisation loop on one \<open>dep\<close> of the list \<open>lb\<close>: some other entry
  of \<open>lb\<close> names a native that depends on \<open>dep\<close>.\<close>

definition reachable_through_chain ::
  "(string \<Rightarrow> string) \<Rightarrow> ModNative list \<Rightarrow> dep list \<Rightarrow> dep \<Rightarrow> bool" where
  "reachable_through_chain nm ns lb d =
     list_ex (\<lambda>other_dep. get_id other_dep \<noteq> get_id d
                          \<and> dll_depends_on nm ns (get_id other_dep) (get_id d)) lb"

text \<open>\<^verbatim>\<open>_optimize_force_load_dependencies(dll_name)\<close>: the native is searched again, by
  the name given.\<close>

definition optimize_force_load_dependencies ::
  "(string \<Rightarrow> string) \<Rightarrow> ModNative list \<Rightarrow> string \<Rightarrow> ModNative list" where
  "optimize_force_load_dependencies nm ns dll_name =
     (case first_index (\<lambda>n. matches nm n (clean dll_name)) ns of
        None \<Rightarrow> ns
      | Some j \<Rightarrow>
          if \<not> truthy (load_before (ns ! j)) then ns
          else
            let lb = deps (load_before (ns ! j));
                optimized_deps = filter (\<lambda>d. \<not> reachable_through_chain nm ns lb d) lb
            in ns[j := (ns ! j)\<lparr>load_before := none_if_empty optimized_deps\<rparr>])"

text \<open>\<^verbatim>\<open>set_force_load_first_native(dll_name)\<close>\<close>

definition set_force_load_first_native ::
  "(string \<Rightarrow> string) \<Rightarrow> ModNative list \<Rightarrow> string \<Rightarrow> bool \<times> ModNative list" where
  "set_force_load_first_native nm ns dll_name =
     (case first_index (\<lambda>n. matches nm n (clean dll_name)) ns of
        None \<Rightarrow> (False, ns)
      | Some i \<Rightarrow>
          let target_native = ns ! i;
              ns1 = map (\<lambda>other_native.
                           if other_native \<noteq> target_native
                           then (if truthy (load_before other_native)
                                    \<and> has_only_specific_order_deps nm other_native
                                 then other_native
                                 else other_native\<lparr>load_before := None\<rparr>)
                           else other_native) ns;
              other_dlls = other_dll_names nm ns1 (ns1 ! i);
              ns2 = ns1[i := (ns1 ! i)\<lparr>load_before :=
                        (if other_dlls \<noteq> [] then Some (map (\<lambda>x. mk_dep x False) other_dlls)
                         else None)\<rparr>];
              ns3 = ensure_specific_dll_orders nm ns2;
              target_dll_name = nm (path (ns3 ! i))
          in (True, optimize_force_load_dependencies nm ns3 target_dll_name))"

section \<open>Notions used in the proofs\<close>

text \<open>One native before and after a step that may only rewrite \<^verbatim>\<open>load_before\<close>: every
  other field is kept, a constraint of the new list is an old one or names an element of
  \<open>E\<close>, and the new list is the empty list only if the old one was.\<close>

definition native_step :: "string set \<Rightarrow> ModNative \<Rightarrow> ModNative \<Rightarrow> bool" where
  "native_step E n n' \<longleftrightarrow>
     n'\<lparr>load_before := None\<rparr> = n\<lparr>load_before := None\<rparr>
     \<and> (\<forall>d\<in>set (deps (load_before n')). d \<in> set (deps (load_before n)) \<or> get_id d \<in> E)
     \<and> (load_before n' = Some [] \<longrightarrow> load_before n = Some [])"

text \<open>How often a list names the target \<open>t\<close>.\<close>

definition count_id :: "string \<Rightarrow> dep list option \<Rightarrow> nat" where
  "count_id t l = length (filter (\<lambda>d. dep_id d = Some t) (deps l))"

text \<open>The list \<open>ns1\<close> of \<open>add_order_edge\<close>: the natives after the reverse edge is
  removed, if there was one.\<close>

definition after_removal ::
  "(string \<Rightarrow> string) \<Rightarrow> ModNative list \<Rightarrow> nat \<Rightarrow> nat \<Rightarrow> ModNative list" where
  "after_removal nm ns fi si =
     (if would_create_circular_dependency nm ns (nm (path (ns ! fi))) (nm (path (ns ! si)))
      then remove_reverse_dependency nm ns (nm (path (ns ! si))) (nm (path (ns ! fi)))
      else ns)"

section \<open>Example states\<close>

text \<open>A package and a native as \<^verbatim>\<open>add_package\<close> and \<^verbatim>\<open>add_native\<close> build them, with the
  fields the examples vary.\<close>

definition package :: "string \<Rightarrow> bool \<Rightarrow> dep list option \<Rightarrow> ModPackage" where
  "package i e la =
     \<lparr>pkg_id = i, pkg_source = i @ ''/'', pkg_load_after = la, pkg_load_before = None,
      pkg_enabled = e, pkg_is_external = False, pkg_comment = []\<rparr>"

definition native :: "string \<Rightarrow> bool \<Rightarrow> dep list option \<Rightarrow> ModNative" where
  "native p e lb =
     \<lparr>path = p, optional = False, enabled = e, initializer = None, finalizer = None,
      load_after = None, load_before = lb, load_early = False, is_external = False,
      comment = []\<rparr>"

text \<open>\<^verbatim>\<open>"seamless (external)coop/nrsc.dll (external)"\<close>: a path that ends with the
  decoration and carries a second one inside the folder name.\<close>

definition decorated_coop_path :: string where
  "decorated_coop_path = ''seamless'' @ external_mark @ ''coop/nrsc.dll'' @ external_mark"

text \<open>\<^verbatim>\<open>"A (external)B"\<close>: an identifier with the decoration inside, as \<^verbatim>\<open>add_package\<close>
  stores it for a folder of that name (it strips only an identifier that ends with the
  decoration).\<close>

definition decorated_id :: string where
  "decorated_id = ''A'' @ external_mark @ ''B''"

text \<open>States for the examples of reconciliation. In \<open>same_name_natives\<close> two natives
  share the file name \<^verbatim>\<open>x.dll\<close>; one of them is disabled.\<close>

definition same_name_natives :: "ModNative list" where
  "same_name_natives =
     [native ''a/x.dll'' True None, native ''b/x.dll'' False None,
      native ''y.dll'' True (Some [mk_dep ''x.dll'' False])]"

definition stale_packages :: "ModPackage list" where
  "stale_packages =
     [package ''A'' True None,
      package ''B'' True (Some [mk_dep ''A'' True, mk_dep ''C'' True]),
      package ''C'' False (Some [mk_dep ''D'' True])]"

definition stale_natives :: "ModNative list" where
  "stale_natives =
     [native ''x.dll'' True (Some [mk_dep ''gone.dll'' False]),
      native ''nighter.dll'' True None, native ''nrsc.dll'' True None]"

text \<open>Two enabled natives; the second already names the first.\<close>

definition order_natives :: "ModNative list" where
  "order_natives =
     [native ''mods/a.dll'' True None, native ''b.dll'' True (Some [mk_dep ''a.dll'' True])]"

section \<open>The search loop of the pairwise order\<close>

lemma find_order_pair_no_first:
  "\<forall>n\<in>set ns. \<not> matches nm n fc \<Longrightarrow> fst (find_order_pair nm fc sc ns i f s) = f"
  by (induction ns arbitrary: i f s) auto

lemma find_order_pair_no_second:
  "\<forall>n\<in>set ns. \<not> matches nm n sc \<Longrightarrow> snd (find_order_pair nm fc sc ns i f s) = s"
  by (induction ns arbitrary: i f s) auto

text \<open>A position the loop returns is a position of the list, and the native there
  matches.\<close>

lemma find_order_pair_fst_Some:
  "fst (find_order_pair nm fc sc ns i f s) = Some k \<Longrightarrow>
     f = Some k \<or> (i \<le> k \<and> k < i + length ns \<and> matches nm (ns ! (k - i)) fc)"
proof (induction ns arbitrary: i f s)
  case Nil
  then show ?case by simp
next
  case (Cons n ns)
  show ?case
  proof (cases "matches nm n fc")
    case True
    with Cons.prems
    have "fst (find_order_pair nm fc sc ns (Suc i) (Some i) s) = Some k" by simp
    from Cons.IH[OF this] show ?thesis
      using True by (auto simp: Suc_diff_le)
  next
    case False
    with Cons.prems
    have "fst (find_order_pair nm fc sc ns (Suc i) f
                 (if matches nm n sc then Some i else s)) = Some k"
      by (simp split: if_splits)
    from Cons.IH[OF this] show ?thesis
      by (auto simp: Suc_diff_le)
  qed
qed

lemma find_order_pair_snd_Some:
  "snd (find_order_pair nm fc sc ns i f s) = Some k \<Longrightarrow>
     s = Some k \<or> (i \<le> k \<and> k < i + length ns \<and> matches nm (ns ! (k - i)) sc
                    \<and> \<not> matches nm (ns ! (k - i)) fc)"
proof (induction ns arbitrary: i f s)
  case Nil
  then show ?case by simp
next
  case (Cons n ns)
  show ?case
  proof (cases "matches nm n fc")
    case True
    with Cons.prems
    have "snd (find_order_pair nm fc sc ns (Suc i) (Some i) s) = Some k" by simp
    from Cons.IH[OF this] show ?thesis
      by (auto simp: Suc_diff_le)
  next
    case False
    note nf = this
    show ?thesis
    proof (cases "matches nm n sc")
      case True
      with nf Cons.prems
      have "snd (find_order_pair nm fc sc ns (Suc i) f (Some i)) = Some k" by simp
      from Cons.IH[OF this] show ?thesis
        using True nf by (auto simp: Suc_diff_le)
    next
      case False
      with nf Cons.prems
      have "snd (find_order_pair nm fc sc ns (Suc i) f s) = Some k" by simp
      from Cons.IH[OF this] show ?thesis
        by (auto simp: Suc_diff_le)
    qed
  qed
qed

section \<open>C7: a pairwise order that cannot be set changes nothing\<close>



section \<open>C8: duplicates are rejected when an entity is added\<close>






section \<open>C9: the early-load default of the co-op core library\<close>

text \<open>Removing the decoration keeps every occurrence of a fragment that shares no
  character with the decoration.\<close>

lemma prefix_contains: "prefix f s \<Longrightarrow> contains f s"
  by (cases s) auto

lemma contains_Cons: "contains f s \<Longrightarrow> contains f (c # s)"
  by simp

lemma prefix_map_py_remove:
  assumes "\<forall>c\<in>set m. g c \<notin> set f"
  shows "prefix f (map g s) \<Longrightarrow> prefix f (map g (py_remove m s))"
  using assms
proof (induction s arbitrary: f)
  case Nil
  then show ?case by simp
next
  case (Cons c cs)
  show ?case
  proof (cases f)
    case Nil
    then show ?thesis by simp
  next
    case (Cons a f')
    with Cons.prems have a: "a = g c" and p: "prefix f' (map g cs)" by auto
    have nopre: "\<not> (m \<noteq> [] \<and> prefix m (c # cs))"
    proof
      assume "m \<noteq> [] \<and> prefix m (c # cs)"
      then have "c \<in> set m" by (cases m) auto
      with Cons.prems(2) have "g c \<notin> set f" by blast
      with a Cons show False by simp
    qed
    from Cons.prems(2) Cons have "\<forall>c\<in>set m. g c \<notin> set f'" by auto
    from Cons.IH[OF p this] nopre a Cons show ?thesis by auto
  qed
qed

lemma contains_skip:
  "set xs \<inter> set f = {} \<Longrightarrow> f \<noteq> [] \<Longrightarrow> contains f (xs @ ys) \<Longrightarrow> contains f ys"
proof (induction xs)
  case Nil
  then show ?case by simp
next
  case (Cons x xs)
  from Cons.prems(1,2) have "\<not> prefix f (x # xs @ ys)"
    by (cases f) auto
  with Cons.prems(3) have "contains f (xs @ ys)" by simp
  with Cons show ?case by auto
qed

lemma contains_map_py_remove:
  "\<forall>c\<in>set m. g c \<notin> set f \<Longrightarrow> f \<noteq> [] \<Longrightarrow> contains f (map g s)
     \<Longrightarrow> contains f (map g (py_remove m s))"
proof (induction m s rule: py_remove.induct)
  case (1 old)
  then show ?case by simp
next
  case (2 old c cs)
  show ?case
  proof (cases "old \<noteq> [] \<and> prefix old (c # cs)")
    case True
    then obtain rest where r: "c # cs = old @ rest" by (auto simp: prefix_def)
    have dr: "drop (length old - 1) cs = rest" using r True by (cases old) auto
    have "set (map g old) \<inter> set f = {}" using "2.prems"(1) by auto
    moreover have "contains f (map g old @ map g rest)"
      using "2.prems"(3) r by (metis map_append)
    ultimately have "contains f (map g rest)"
      using contains_skip "2.prems"(2) by blast
    with "2.IH"(1)[OF True] "2.prems"(1,2) dr True show ?thesis by simp
  next
    case False
    from "2.prems"(3) consider
      (p) "prefix f (map g (c # cs))" | (q) "contains f (map g cs)" by auto
    then show ?thesis
    proof cases
      case p
      from prefix_map_py_remove[OF "2.prems"(1) p] show ?thesis by (rule prefix_contains)
    next
      case q
      with "2.IH"(2)[OF False "2.prems"(1,2)] False show ?thesis by auto
    qed
  qed
qed

lemma mark_not_in_fragments:
  "\<forall>c\<in>set external_mark. lower_char c \<notin> set ''seamlesscoop''"
  "\<forall>c\<in>set external_mark. lower_char c \<notin> set ''nrsc.dll''"
  by code_simp+

lemma is_coop_core_clean: "is_coop_core p \<Longrightarrow> is_coop_core (clean p)"
  unfolding is_coop_core_def lower_def clean_def
  using contains_map_py_remove[OF mark_not_in_fragments(1), of p]
        contains_map_py_remove[OF mark_not_in_fragments(2), of p]
  by simp


text \<open>
  C9, as amended. Whenever \<^verbatim>\<open>add_native(dll_path, ..., load_early)\<close> succeeds, it appends
  one native whose \<^verbatim>\<open>load_early\<close> is true exactly when the argument is true or the path
  with the external decoration removed contains, lower-cased, both \<^verbatim>\<open>seamlesscoop\<close> and
  \<^verbatim>\<open>nrsc.dll\<close>. In particular a \<open>dll_path\<close> whose own lower-cased form contains both
  fragments gets \<^verbatim>\<open>load_early\<close> true, and a path whose stripped form does not match keeps
  the argument.
\<close>

theorem add_native_load_early:
  assumes "fst (add_native natext ns dll_path opt en le)"
  shows "\<exists>e. snd (add_native natext ns dll_path opt en le) = ns @ [e]
            \<and> load_early e = (le \<or> is_coop_core (clean_if_external dll_path))
            \<and> (is_coop_core dll_path \<longrightarrow> load_early e)"
proof -
  have "is_coop_core dll_path \<Longrightarrow> is_coop_core (clean_if_external dll_path)"
    by (simp add: clean_if_external_def is_coop_core_clean)
  with assms show ?thesis
    by (auto simp: add_native_def clean_if_external_def Let_def split: if_splits)
qed

text \<open>
  C9 as stated fails for a path that does not contain the fragment itself but does so once
  the decoration is removed: the argument \<^verbatim>\<open>load_early\<close> is false, the native appended
  has it true.
\<close>

theorem add_native_load_early_counterexample:
  "\<not> is_coop_core decorated_coop_path
   \<and> add_native Map.empty [] decorated_coop_path False True False
     = (True, [\<lparr>path = ''seamlesscoop/nrsc.dll'', optional = False, enabled = True,
                 initializer = None, finalizer = None, load_after = None,
                 load_before = None, load_early = True, is_external = True,
                 comment = []\<rparr>])"
  by code_simp

theorem add_native_load_early_witness:
  "\<exists>e. snd (add_native Map.empty [] ''SeamlessCoop/nrsc.dll'' False True False) = [] @ [e]
       \<and> load_early e = (False \<or> is_coop_core (clean_if_external ''SeamlessCoop/nrsc.dll''))
       \<and> (is_coop_core ''SeamlessCoop/nrsc.dll'' \<longrightarrow> load_early e)"
proof -
  have "fst (add_native Map.empty [] ''SeamlessCoop/nrsc.dll'' False True False)"
    by code_simp
  then show ?thesis by (rule add_native_load_early)
qed

section \<open>Searching a list\<close>

lemma first_index_Some:
  "first_index P xs = Some i \<Longrightarrow> i < length xs \<and> P (xs ! i) \<and> (\<forall>k<i. \<not> P (xs ! k))"
proof (induction xs arbitrary: i)
  case Nil
  then show ?case by simp
next
  case (Cons x xs)
  show ?case
  proof (cases "P x")
    case True
    with Cons.prems show ?thesis by simp
  next
    case False
    with Cons.prems obtain j where j: "first_index P xs = Some j" "i = Suc j" by auto
    from Cons.IH[OF j(1)] False j(2) show ?thesis
      by (auto simp: less_Suc_eq_0_disj)
  qed
qed

lemma first_index_None: "first_index P xs = None \<longleftrightarrow> (\<forall>x\<in>set xs. \<not> P x)"
  by (induction xs) auto

lemma first_index_find:
  "find P xs = Some t \<Longrightarrow> \<exists>i. first_index P xs = Some i \<and> xs ! i = t"
  by (induction xs) (auto split: if_splits)

lemma find_first:
  "i < length xs \<Longrightarrow> P (xs ! i) \<Longrightarrow> \<forall>k<i. \<not> P (xs ! k) \<Longrightarrow> find P xs = Some (xs ! i)"
proof (induction xs arbitrary: i)
  case Nil
  then show ?case by simp
next
  case (Cons x xs)
  show ?case
  proof (cases i)
    case 0
    with Cons.prems show ?thesis by simp
  next
    case (Suc j)
    with Cons.prems have "\<not> P x" by auto
    moreover from Suc Cons.prems have "find P xs = Some (xs ! j)"
      by (intro Cons.IH) auto
    ultimately show ?thesis using Suc by simp
  qed
qed

text \<open>The clearing loop of \<open>set_force_load_last\<close> keeps ids and enabled flags.\<close>

lemma other_enabled_mods_map:
  "(\<And>p. pkg_id (g p) = pkg_id p \<and> pkg_enabled (g p) = pkg_enabled p) \<Longrightarrow>
     other_enabled_mods (map g ps) c = other_enabled_mods ps c"
  by (induction ps) (auto simp: other_enabled_mods_def)

lemma set_force_load_last_unfold:
  assumes "first_index (\<lambda>p. pkg_id p = clean mod_id) ps = Some i"
  shows "set_force_load_last ps mod_id =
           (True, (map (\<lambda>p. if p \<noteq> ps ! i then p\<lparr>pkg_load_after := None\<rparr> else p) ps)
                    [i := (ps ! i)\<lparr>pkg_load_after :=
                       (if other_enabled_mods ps (clean mod_id) = [] then None
                        else Some (map (\<lambda>m. mk_dep m True)
                                     (other_enabled_mods ps (clean mod_id))))\<rparr>])"
proof -
  let ?g = "\<lambda>p. if p \<noteq> ps ! i then p\<lparr>pkg_load_after := None\<rparr> else p"
  from first_index_Some[OF assms] have i: "i < length ps" by simp
  have o: "other_enabled_mods (map ?g ps) (clean mod_id) = other_enabled_mods ps (clean mod_id)"
    by (rule other_enabled_mods_map) simp
  have n: "map ?g ps ! i = ps ! i" using i by simp
  show ?thesis
    unfolding set_force_load_last_def Let_def using assms o n by simp
qed

section \<open>C2: what force-last stores\<close>

text \<open>
  C2, as amended. Let \<open>X\<close> be the argument of \<^verbatim>\<open>set_force_load_last\<close> with the external
  decoration removed. For every package collection containing a package with id \<open>X\<close> the
  call returns \<^verbatim>\<open>True\<close>, and afterwards the \<^verbatim>\<open>load_after\<close> of package \<open>X\<close> (the first
  package with that id) is the list of the ids of all enabled packages whose id is not
  \<open>X\<close>, in collection order, each as \<^verbatim>\<open>{id, optional: True}\<close>; when there is no such
  package, \<^verbatim>\<open>load_after\<close> is \<^verbatim>\<open>None\<close> and the call still returns \<^verbatim>\<open>True\<close>.
\<close>

theorem set_force_load_last_result:
  assumes "clean mod_id \<in> pkg_id ` set ps"
  shows "\<exists>ps'. set_force_load_last ps mod_id = (True, ps')
           \<and> map_option pkg_load_after (find (\<lambda>p. pkg_id p = clean mod_id) ps')
             = Some (if filter (\<lambda>p. pkg_enabled p \<and> pkg_id p \<noteq> clean mod_id) ps = []
                     then None
                     else Some (map (\<lambda>p. \<lparr>dep_id = Some (pkg_id p), dep_optional = Some True\<rparr>)
                                  (filter (\<lambda>p. pkg_enabled p \<and> pkg_id p \<noteq> clean mod_id) ps)))"
proof -
  let ?X = "clean mod_id"
  let ?P = "\<lambda>p. pkg_id p = ?X"
  from assms have "\<not> (\<forall>x\<in>set ps. \<not> ?P x)" by auto
  then obtain i where fi: "first_index ?P ps = Some i"
    using first_index_None[of ?P ps] by (cases "first_index ?P ps") auto
  from first_index_Some[OF fi]
  have i: "i < length ps" and Pi: "?P (ps ! i)" and before: "\<forall>k<i. \<not> ?P (ps ! k)" by auto
  let ?g = "\<lambda>p. if p \<noteq> ps ! i then p\<lparr>pkg_load_after := None\<rparr> else p"
  let ?v = "if other_enabled_mods ps ?X = [] then None
            else Some (map (\<lambda>m. mk_dep m True) (other_enabled_mods ps ?X))"
  let ?ps' = "(map ?g ps)[i := (ps ! i)\<lparr>pkg_load_after := ?v\<rparr>]"
  have r: "set_force_load_last ps mod_id = (True, ?ps')"
    by (rule set_force_load_last_unfold[OF fi])
  have "find ?P ?ps' = Some (?ps' ! i)"
  proof (rule find_first)
    show "i < length ?ps'" using i by simp
    show "?P (?ps' ! i)" using i Pi by simp
    show "\<forall>k<i. \<not> ?P (?ps' ! k)" using i before by auto
  qed
  then have "map_option pkg_load_after (find ?P ?ps') = Some ?v" using i by simp
  moreover have "?v = (if filter (\<lambda>p. pkg_enabled p \<and> pkg_id p \<noteq> ?X) ps = [] then None
                     else Some (map (\<lambda>p. \<lparr>dep_id = Some (pkg_id p), dep_optional = Some True\<rparr>)
                                  (filter (\<lambda>p. pkg_enabled p \<and> pkg_id p \<noteq> ?X) ps)))"
    by (simp add: other_enabled_mods_def mk_dep_def comp_def)
  ultimately show ?thesis using r by simp
qed

text \<open>
  C2 as stated fails for an id that carries the decoration: the package exists, another
  package is enabled, and the call returns \<^verbatim>\<open>False\<close> and changes nothing, because the
  search is made with the stripped argument.
\<close>

theorem set_force_load_last_result_counterexample:
  "decorated_id \<in> pkg_id ` set [package decorated_id True None, package ''C'' True None]
   \<and> pkg_enabled (package ''C'' True None)
   \<and> pkg_id (package ''C'' True None) \<noteq> decorated_id
   \<and> set_force_load_last [package decorated_id True None, package ''C'' True None]
        decorated_id
     = (False, [package decorated_id True None, package ''C'' True None])"
  by code_simp

text \<open>The scenario of the specification: packages A, B and C enabled, force-last
  on B.\<close>

theorem set_force_load_last_result_witness:
  "clean ''B'' \<in> pkg_id ` set [package ''A'' True None, package ''B'' True None,
                               package ''C'' True None]
   \<and> (\<exists>ps'. set_force_load_last
               [package ''A'' True None, package ''B'' True None, package ''C'' True None]
               ''B'' = (True, ps')
           \<and> map_option pkg_load_after (find (\<lambda>p. pkg_id p = ''B'') ps')
             = Some (Some [mk_dep ''A'' True, mk_dep ''C'' True]))"
proof -
  let ?ps = "[package ''A'' True None, package ''B'' True None, package ''C'' True None]"
  have h: "clean ''B'' \<in> pkg_id ` set ?ps" by code_simp
  have c: "clean ''B'' = ''B''" by code_simp
  have f: "filter (\<lambda>p. pkg_enabled p \<and> pkg_id p \<noteq> ''B'') ?ps
           = [package ''A'' True None, package ''C'' True None]"
    by code_simp
  have m: "map (\<lambda>p. \<lparr>dep_id = Some (pkg_id p), dep_optional = Some True\<rparr>)
             [package ''A'' True None, package ''C'' True None]
           = [mk_dep ''A'' True, mk_dep ''C'' True]"
    by code_simp
  from set_force_load_last_result[OF h] show ?thesis
    unfolding c f m using h c by simp
qed

section \<open>C10: force-last clears the other packages\<close>

text \<open>
  C10. When \<^verbatim>\<open>set_force_load_last(X)\<close> finds package \<open>X\<close> (the first package whose id is
  the stripped argument), the call returns \<^verbatim>\<open>True\<close>, whether \<open>X\<close> is enabled or not, and
  every package other than \<open>X\<close> (the source compares the dataclass values with \<^verbatim>\<open>!=\<close>)
  has \<^verbatim>\<open>load_after\<close> \<^verbatim>\<open>None\<close> afterwards and all its other fields as before, whatever
  its enabled flag and its former \<^verbatim>\<open>load_after\<close> were.
\<close>

theorem set_force_load_last_clears_others:
  assumes "find (\<lambda>p. pkg_id p = clean mod_id) ps = Some t"
  shows "fst (set_force_load_last ps mod_id)
         \<and> length (snd (set_force_load_last ps mod_id)) = length ps
         \<and> (\<forall>k<length ps. ps ! k \<noteq> t \<longrightarrow>
               snd (set_force_load_last ps mod_id) ! k = (ps ! k)\<lparr>pkg_load_after := None\<rparr>)"
proof -
  from first_index_find[OF assms] obtain i where
    fi: "first_index (\<lambda>p. pkg_id p = clean mod_id) ps = Some i" and t: "ps ! i = t" by blast
  from first_index_Some[OF fi] have i: "i < length ps" by simp
  show ?thesis
    unfolding set_force_load_last_unfold[OF fi] using i t by (auto simp: nth_list_update)
qed

text \<open>\<open>X\<close> is disabled; the other package is disabled too and its \<^verbatim>\<open>load_after\<close> names
  a package that does not exist.\<close>

theorem set_force_load_last_clears_others_witness:
  "fst (set_force_load_last
          [package ''X'' False None, package ''Y'' False (Some [mk_dep ''Z'' False])] ''X'')
   \<and> length (snd (set_force_load_last
          [package ''X'' False None, package ''Y'' False (Some [mk_dep ''Z'' False])] ''X''))
     = length [package ''X'' False None, package ''Y'' False (Some [mk_dep ''Z'' False])]
   \<and> snd (set_force_load_last
            [package ''X'' False None, package ''Y'' False (Some [mk_dep ''Z'' False])]
            ''X'') ! 1
     = ([package ''X'' False None, package ''Y'' False (Some [mk_dep ''Z'' False])] ! 1)
         \<lparr>pkg_load_after := None\<rparr>"
proof -
  let ?ps = "[package ''X'' False None, package ''Y'' False (Some [mk_dep ''Z'' False])]"
  have h: "find (\<lambda>p. pkg_id p = clean ''X'') ?ps = Some (package ''X'' False None)"
    by code_simp
  have k: "1 < length ?ps" by simp
  have d: "?ps ! 1 \<noteq> package ''X'' False None" by code_simp
  from set_force_load_last_clears_others[OF h] k d show ?thesis by blast
qed

section \<open>C5: recognising force-last\<close>

lemma add_other_enabled_eq:
  "add_other_enabled c ps acc =
     acc \<union> {pkg_id p |p. p \<in> set ps \<and> pkg_enabled p \<and> pkg_id p \<noteq> c}"
  by (induction ps arbitrary: acc) auto

lemma add_load_after_ids_eq:
  "add_load_after_ids ds acc = acc \<union> {x. \<exists>d\<in>set ds. dep_id d = Some x}"
  by (induction ds arbitrary: acc) (auto split: option.splits)

text \<open>
  C5, as amended. Let \<open>X\<close> be the argument of \<^verbatim>\<open>is_force_load_last\<close> with the external
  decoration removed, let package \<open>X\<close> exist with a \<^verbatim>\<open>load_after\<close> list that is not
  \<^verbatim>\<open>None\<close>, and let \<open>O\<close> be the set of the ids, other than \<open>X\<close>, of the enabled packages.
  The call returns \<^verbatim>\<open>True\<close> exactly when the ids of the \<^verbatim>\<open>load_after\<close> list meet \<open>O\<close> in
  at least one element if \<open>O\<close> has at most 3 elements, and in at least half of the
  elements of \<open>O\<close> if it has more than 3.
\<close>

theorem is_force_load_last_threshold:
  assumes "find (\<lambda>p. pkg_id p = clean mod_id) ps = Some t"
      and "pkg_load_after t = Some l"
  shows "is_force_load_last ps mod_id =
           (if card {pkg_id p |p. p \<in> set ps \<and> pkg_enabled p \<and> pkg_id p \<noteq> clean mod_id} \<le> 3
            then 1 \<le> card ({x. \<exists>d\<in>set l. dep_id d = Some x}
                            \<inter> {pkg_id p |p. p \<in> set ps \<and> pkg_enabled p
                                              \<and> pkg_id p \<noteq> clean mod_id})
            else card {pkg_id p |p. p \<in> set ps \<and> pkg_enabled p \<and> pkg_id p \<noteq> clean mod_id}
                 \<le> 2 * card ({x. \<exists>d\<in>set l. dep_id d = Some x}
                               \<inter> {pkg_id p |p. p \<in> set ps \<and> pkg_enabled p
                                                 \<and> pkg_id p \<noteq> clean mod_id}))"
proof -
  let ?O = "{pkg_id p |p. p \<in> set ps \<and> pkg_enabled p \<and> pkg_id p \<noteq> clean mod_id}"
  let ?I = "{x. \<exists>d\<in>set l. dep_id d = Some x}"
  define n where "n = card ?O"
  define m where "m = card (?I \<inter> ?O)"
  from first_index_find[OF assms(1)] obtain i where
    fi: "first_index (\<lambda>p. pkg_id p = clean mod_id) ps = Some i" and t: "ps ! i = t" by blast
  have tr: "truthy (pkg_load_after (ps ! i)) \<longleftrightarrow> l \<noteq> []"
    using t assms(2) by (simp add: truthy_def)
  have d: "deps (pkg_load_after (ps ! i)) = l" using t assms(2) by (simp add: deps_def)
  have code: "is_force_load_last ps mod_id =
                (if l = [] then False else if n = 0 then False
                 else if n \<le> 3 then 1 \<le> m else n \<le> 2 * m)"
    unfolding is_force_load_last_def Let_def add_other_enabled_eq add_load_after_ids_eq
      n_def m_def
    using fi tr d by (simp del: card_eq_0_iff card_0_eq)
  have "finite ?O" by simp
  then have mn: "m \<le> n" unfolding m_def n_def by (intro card_mono) auto
  have "l = [] \<Longrightarrow> m = 0" unfolding m_def by simp
  with mn have "is_force_load_last ps mod_id = (if n \<le> 3 then 1 \<le> m else n \<le> 2 * m)"
    unfolding code by auto
  then show ?thesis unfolding n_def m_def .
qed

text \<open>The two sets of the theorem, as lists.\<close>

lemma others_as_image:
  "{pkg_id p |p. p \<in> set ps \<and> pkg_enabled p \<and> pkg_id p \<noteq> c}
   = set (map pkg_id (filter (\<lambda>p. pkg_enabled p \<and> pkg_id p \<noteq> c) ps))"
  by auto

lemma load_after_ids_as_image:
  "{x. \<exists>d\<in>set l. dep_id d = Some x}
   = set (concat (map (\<lambda>d. case dep_id d of None \<Rightarrow> [] | Some x \<Rightarrow> [x]) l))"
  by (auto split: option.splits)

text \<open>
  C5 as stated fails for an id that carries the decoration: the package exists, its
  \<^verbatim>\<open>load_after\<close> names the only other enabled package, and the call returns \<^verbatim>\<open>False\<close>.
\<close>

theorem is_force_load_last_threshold_counterexample:
  "find (\<lambda>p. pkg_id p = decorated_id)
     [package decorated_id True (Some [mk_dep ''C'' True]), package ''C'' True None]
   = Some (package decorated_id True (Some [mk_dep ''C'' True]))
   \<and> pkg_load_after (package decorated_id True (Some [mk_dep ''C'' True]))
     = Some [mk_dep ''C'' True]
   \<and> dep_id (mk_dep ''C'' True) = Some ''C''
   \<and> pkg_enabled (package ''C'' True None) \<and> pkg_id (package ''C'' True None) = ''C''
   \<and> ''C'' \<noteq> decorated_id
   \<and> \<not> is_force_load_last
         [package decorated_id True (Some [mk_dep ''C'' True]), package ''C'' True None]
         decorated_id"
  by code_simp

text \<open>Two other packages are enabled and \<^verbatim>\<open>load_after\<close> names one of them.\<close>

theorem is_force_load_last_threshold_witness:
  "is_force_load_last
     [package ''A'' True None, package ''B'' True (Some [mk_dep ''A'' True]),
      package ''C'' True None] ''B''"
proof -
  let ?ps = "[package ''A'' True None, package ''B'' True (Some [mk_dep ''A'' True]),
              package ''C'' True None]"
  have h: "find (\<lambda>p. pkg_id p = clean ''B'') ?ps
           = Some (package ''B'' True (Some [mk_dep ''A'' True]))"
    by code_simp
  have l: "pkg_load_after (package ''B'' True (Some [mk_dep ''A'' True]))
           = Some [mk_dep ''A'' True]"
    by code_simp
  have c: "clean ''B'' = ''B''" by code_simp
  have O: "{pkg_id p |p. p \<in> set ?ps \<and> pkg_enabled p \<and> pkg_id p \<noteq> ''B''} = {''A'', ''C''}"
    unfolding others_as_image by code_simp
  have I: "{x. \<exists>d\<in>set [mk_dep ''A'' True]. dep_id d = Some x} = {''A''}"
    unfolding load_after_ids_as_image by code_simp
  show ?thesis
    unfolding is_force_load_last_threshold[OF h l] c O I by simp
qed


section \<open>C4: recognising force-first\<close>






section \<open>Steps that only rewrite \<^verbatim>\<open>load_before\<close>\<close>

lemma native_step_refl: "native_step E n n"
  by (simp add: native_step_def)

lemma native_step_trans:
  "native_step E a b \<Longrightarrow> native_step E b c \<Longrightarrow> native_step E a c"
  unfolding native_step_def by auto

lemma list_all2_native_step_trans:
  "list_all2 (native_step E) xs ys \<Longrightarrow> list_all2 (native_step E) ys zs
     \<Longrightarrow> list_all2 (native_step E) xs zs"
  by (rule list_all2_trans[of "native_step E" "native_step E" "native_step E"])
     (auto intro: native_step_trans)

lemma list_all2_native_step_refl: "list_all2 (native_step E) ns ns"
  by (simp add: list_all2_refl native_step_refl)

lemma native_step_fields:
  assumes "native_step E n n'"
  shows "path n' = path n" and "enabled n' = enabled n" and "load_after n' = load_after n"
proof -
  from assms have e: "n'\<lparr>load_before := None\<rparr> = n\<lparr>load_before := None\<rparr>"
    by (simp add: native_step_def)
  from arg_cong[OF e, of path] show "path n' = path n" by simp
  from arg_cong[OF e, of enabled] show "enabled n' = enabled n" by simp
  from arg_cong[OF e, of load_after] show "load_after n' = load_after n" by simp
qed

lemma native_step_frame:
  "list_all2 (native_step E) ns ns' \<Longrightarrow>
     length ns' = length ns \<and> map path ns' = map path ns \<and> map enabled ns' = map enabled ns
     \<and> map load_after ns' = map load_after ns"
  by (induction rule: list_all2_induct) (simp_all add: native_step_fields)

lemma enabled_native_ids_frame:
  "map path ns' = map path ns \<Longrightarrow> map enabled ns' = map enabled ns
     \<Longrightarrow> enabled_native_ids nm ns' = enabled_native_ids nm ns"
proof (induction ns arbitrary: ns')
  case Nil
  then show ?case by simp
next
  case (Cons n ns)
  then obtain m ms where m: "ns' = m # ms" by (cases ns') auto
  with Cons.prems have "path m = path n" "enabled m = enabled n"
    "map path ms = map path ns" "map enabled ms = map enabled ns" by auto
  with Cons.IH[of ms] m show ?case by (auto simp: enabled_native_ids_def)
qed

lemma deps_none_if_empty [simp]: "deps (none_if_empty xs) = xs"
  by (simp add: deps_def none_if_empty_def)

lemma none_if_empty_not_empty [simp]: "none_if_empty xs \<noteq> Some []"
  by (simp add: none_if_empty_def)

lemma remove_reverse_dependency_step:
  "list_all2 (native_step E) ns (remove_reverse_dependency nm ns x y)"
  unfolding remove_reverse_dependency_def
  by (rule list_all2_all_nthI) (auto simp: native_step_def)


lemma add_order_edge_unfold:
  "add_order_edge nm ns fi si =
     (let ns1 = (if would_create_circular_dependency nm ns (nm (path (ns ! fi)))
                      (nm (path (ns ! si)))
                 then remove_reverse_dependency nm ns (nm (path (ns ! si)))
                        (nm (path (ns ! fi)))
                 else ns);
          lb = (if truthy (load_before (ns1 ! fi)) then deps (load_before (ns1 ! fi)) else [])
      in ns1[fi := (ns1 ! fi)\<lparr>load_before :=
               Some (if has_dep (nm (path (ns ! si))) lb then lb
                     else lb @ [mk_dep (nm (path (ns ! si))) False])\<rparr>])"
  unfolding add_order_edge_def Let_def by (rule refl)

lemma add_order_edge_step:
  assumes "nm (path (ns ! si)) \<in> E"
  shows "list_all2 (native_step E) ns (add_order_edge nm ns fi si)"
proof -
  define sn where "sn = nm (path (ns ! si))"
  define ns1 where
    "ns1 = (if would_create_circular_dependency nm ns (nm (path (ns ! fi))) sn
            then remove_reverse_dependency nm ns sn (nm (path (ns ! fi))) else ns)"
  define lb where
    "lb = (if truthy (load_before (ns1 ! fi)) then deps (load_before (ns1 ! fi)) else [])"
  define lb' where "lb' = (if has_dep sn lb then lb else lb @ [mk_dep sn False])"
  have 1: "list_all2 (native_step E) ns ns1"
    unfolding ns1_def
    by (simp add: remove_reverse_dependency_step list_all2_native_step_refl)
  have ne: "lb' \<noteq> []" unfolding lb'_def by (auto simp: has_dep_def)
  have "set lb \<subseteq> set (deps (load_before (ns1 ! fi)))" unfolding lb_def by auto
  then have sub: "\<forall>d\<in>set lb'. d \<in> set (deps (load_before (ns1 ! fi))) \<or> get_id d \<in> E"
    unfolding lb'_def using assms sn_def by (auto simp: get_id_def mk_dep_def)
  have at: "native_step E (ns1 ! fi) ((ns1 ! fi)\<lparr>load_before := Some lb'\<rparr>)"
    unfolding native_step_def using sub ne by (simp add: deps_def)
  have 2: "list_all2 (native_step E) ns1 (ns1[fi := (ns1 ! fi)\<lparr>load_before := Some lb'\<rparr>])"
  proof (rule list_all2_all_nthI)
    show "length ns1 = length (ns1[fi := (ns1 ! fi)\<lparr>load_before := Some lb'\<rparr>])" by simp
  next
    fix k assume k: "k < length ns1"
    show "native_step E (ns1 ! k) (ns1[fi := (ns1 ! fi)\<lparr>load_before := Some lb'\<rparr>] ! k)"
      using k at by (cases "k = fi") (simp_all add: native_step_refl)
  qed
  have "add_order_edge nm ns fi si = ns1[fi := (ns1 ! fi)\<lparr>load_before := Some lb'\<rparr>]"
    unfolding add_order_edge_unfold Let_def ns1_def lb_def lb'_def sn_def by (rule refl)
  with list_all2_native_step_trans[OF 1 2] show ?thesis by simp
qed

lemma enabled_native_ids_mem:
  "k < length ns \<Longrightarrow> enabled (ns ! k) \<Longrightarrow> nm (path (ns ! k)) \<in> enabled_native_ids nm ns"
  unfolding enabled_native_ids_def by (auto simp: image_iff) (metis nth_mem)

lemma set_specific_dll_order_step:
  assumes "enabled_native_ids nm ns \<subseteq> E"
  shows "list_all2 (native_step E) ns (snd (set_specific_dll_order nm ns a b))"
proof (cases "find_order_pair nm (clean a) (clean b) ns 0 None None")
  case (Pair f s)
  show ?thesis
  proof (cases "\<exists>fi si. f = Some fi \<and> s = Some si \<and> enabled (ns ! fi) \<and> enabled (ns ! si)")
    case True
    then obtain fi si where fs: "f = Some fi" "s = Some si"
      and en: "enabled (ns ! fi)" "enabled (ns ! si)" by blast
    from Pair fs have "snd (find_order_pair nm (clean a) (clean b) ns 0 None None) = Some si"
      by simp
    from find_order_pair_snd_Some[OF this] have "si < length ns" by simp
    with en(2) assms have "nm (path (ns ! si)) \<in> E"
      using enabled_native_ids_mem by blast
    from add_order_edge_step[of nm ns si E fi, OF this] Pair fs en show ?thesis
      by (simp add: set_specific_dll_order_def)
  next
    case False
    with Pair have "snd (set_specific_dll_order nm ns a b) = ns"
      by (auto simp: set_specific_dll_order_def split: option.splits)
    then show ?thesis by (simp add: list_all2_native_step_refl)
  qed
qed

lemma ensure_orders_loop_step:
  "enabled_native_ids nm ns \<subseteq> E \<Longrightarrow>
     list_all2 (native_step E) ns (ensure_orders_loop nm ns tbl)"
proof (induction tbl arbitrary: ns)
  case Nil
  then show ?case by (simp add: list_all2_native_step_refl)
next
  case (Cons fs tbl)
  obtain f s where fs: "fs = (f, s)" by (cases fs)
  define ns2 where
    "ns2 = (if list_ex (\<lambda>n. nm (path n) = f \<and> enabled n) ns
               \<and> list_ex (\<lambda>n. \<not> (nm (path n) = f \<and> enabled n)
                                \<and> nm (path n) = s \<and> enabled n) ns
            then snd (set_specific_dll_order nm ns f s) else ns)"
  have 1: "list_all2 (native_step E) ns ns2"
    unfolding ns2_def
    using set_specific_dll_order_step[OF Cons.prems] list_all2_native_step_refl by simp
  from native_step_frame[OF 1]
  have "enabled_native_ids nm ns2 = enabled_native_ids nm ns"
    by (intro enabled_native_ids_frame) simp_all
  with Cons.prems have "enabled_native_ids nm ns2 \<subseteq> E" by simp
  from Cons.IH[OF this] have 2: "list_all2 (native_step E) ns2 (ensure_orders_loop nm ns2 tbl)" .
  have "ensure_orders_loop nm ns (fs # tbl) = ensure_orders_loop nm ns2 tbl"
    unfolding fs ns2_def by (simp add: Let_def)
  with list_all2_native_step_trans[OF 1 2] show ?case by simp
qed

lemma ensure_specific_dll_orders_step:
  "enabled_native_ids nm ns \<subseteq> E \<Longrightarrow>
     list_all2 (native_step E) ns (ensure_specific_dll_orders nm ns)"
  unfolding ensure_specific_dll_orders_def by (rule ensure_orders_loop_step)


section \<open>C1: reconciliation purges references to entities that are not enabled\<close>

lemma not_truthy_deps: "\<not> truthy l \<Longrightarrow> deps l = []"
  by (auto simp: truthy_def deps_def split: option.splits)

lemma keep_enabled_deps: "d \<in> set (deps (keep_enabled E l)) \<Longrightarrow> get_id d \<in> E"
  unfolding keep_enabled_def
  by (cases "truthy l") (simp_all add: not_truthy_deps)

lemma enabled_package_ids_frame:
  "map pkg_id ps' = map pkg_id ps \<Longrightarrow> map pkg_enabled ps' = map pkg_enabled ps
     \<Longrightarrow> enabled_package_ids ps' = enabled_package_ids ps"
proof (induction ps arbitrary: ps')
  case Nil
  then show ?case by simp
next
  case (Cons p ps)
  then obtain q qs where q: "ps' = q # qs" by (cases ps') auto
  with Cons.prems have "pkg_id q = pkg_id p" "pkg_enabled q = pkg_enabled p"
    "map pkg_id qs = map pkg_id ps" "map pkg_enabled qs = map pkg_enabled ps" by auto
  with Cons.IH[of qs] q show ?case by (auto simp: enabled_package_ids_def)
qed

lemma keep_enabled_empty: "keep_enabled E l = Some [] \<Longrightarrow> l = Some []"
  unfolding keep_enabled_def
  by (cases "truthy l") (auto simp: truthy_def split: option.splits)

lemma enabled_native_ids_image:
  "enabled_native_ids nm ns = (\<lambda>m. nm (path m)) ` {m \<in> set ns. enabled m}"
  unfolding enabled_native_ids_def by auto

lemma enabled_package_ids_image:
  "enabled_package_ids ps = pkg_id ` {q \<in> set ps. pkg_enabled q}"
  unfolding enabled_package_ids_def by auto

text \<open>
  C1, as amended. After \<^verbatim>\<open>update_load_dependencies\<close> every constraint left in the
  \<^verbatim>\<open>load_after\<close> of a package names the id of an enabled package, and every constraint
  left in the \<^verbatim>\<open>load_before\<close> or \<^verbatim>\<open>load_after\<close> of a native names the file name of an
  enabled native (a constraint without id counts as naming the empty string); so a
  disabled entity is still named only when an enabled entity of its kind carries the same
  identifier. Ids, paths and enabled flags are as before. A list is the empty list
  afterwards only if it was the empty list before: a list the filter empties is stored as
  \<^verbatim>\<open>None\<close>. The \<^verbatim>\<open>load_before\<close> of a package is not part of the statement.
\<close>

theorem update_load_dependencies_purges:
  assumes "update_load_dependencies nm ps ns = (ps', ns')"
  shows "(\<forall>p\<in>set ps'. \<forall>d\<in>set (deps (pkg_load_after p)).
            get_id d \<in> pkg_id ` {q \<in> set ps'. pkg_enabled q})
       \<and> (\<forall>n\<in>set ns'. \<forall>d\<in>set (deps (load_before n)) \<union> set (deps (load_after n)).
            get_id d \<in> (\<lambda>m. nm (path m)) ` {m \<in> set ns'. enabled m})
       \<and> map pkg_id ps' = map pkg_id ps \<and> map pkg_enabled ps' = map pkg_enabled ps
       \<and> map path ns' = map path ns \<and> map enabled ns' = map enabled ns
       \<and> (\<forall>k<length ps. pkg_load_after (ps' ! k) = Some [] \<longrightarrow>
                          pkg_load_after (ps ! k) = Some [])
       \<and> (\<forall>k<length ns.
            (load_before (ns' ! k) = Some [] \<longrightarrow> load_before (ns ! k) = Some [])
            \<and> (load_after (ns' ! k) = Some [] \<longrightarrow> load_after (ns ! k) = Some []))"
proof -
  define P where "P = enabled_package_ids ps"
  define E where "E = enabled_native_ids nm ns"
  define ns1 where
    "ns1 = map (\<lambda>n. n\<lparr>load_before := keep_enabled E (load_before n),
                       load_after := keep_enabled E (load_after n)\<rparr>) ns"
  from assms have ps': "ps' = map (\<lambda>p. p\<lparr>pkg_load_after := keep_enabled P (pkg_load_after p)\<rparr>) ps"
    and ns': "ns' = ensure_specific_dll_orders nm ns1"
    unfolding update_load_dependencies_def Let_def P_def E_def ns1_def by auto
  \<comment> \<open>packages\<close>
  have pf: "map pkg_id ps' = map pkg_id ps" "map pkg_enabled ps' = map pkg_enabled ps"
    unfolding ps' by simp_all
  have "enabled_package_ids ps' = P"
    unfolding P_def using pf by (rule enabled_package_ids_frame)
  then have Pim: "pkg_id ` {q \<in> set ps'. pkg_enabled q} = P"
    by (simp add: enabled_package_ids_image)
  have c1: "\<forall>p\<in>set ps'. \<forall>d\<in>set (deps (pkg_load_after p)).
              get_id d \<in> pkg_id ` {q \<in> set ps'. pkg_enabled q}"
    unfolding Pim unfolding ps' by (auto dest: keep_enabled_deps)
  have c5: "\<forall>k<length ps. pkg_load_after (ps' ! k) = Some [] \<longrightarrow>
                          pkg_load_after (ps ! k) = Some []"
    unfolding ps' by (auto dest: keep_enabled_empty)
  \<comment> \<open>natives\<close>
  have f1: "map path ns1 = map path ns" "map enabled ns1 = map enabled ns"
    unfolding ns1_def by simp_all
  then have E1: "enabled_native_ids nm ns1 = E"
    unfolding E_def by (rule enabled_native_ids_frame)
  then have st: "list_all2 (native_step E) ns1 ns'"
    unfolding ns' by (intro ensure_specific_dll_orders_step) simp
  from native_step_frame[OF st] have f2: "length ns' = length ns1"
    "map path ns' = map path ns1" "map enabled ns' = map enabled ns1" by simp_all
  have len: "length ns1 = length ns" unfolding ns1_def by simp
  have "enabled_native_ids nm ns' = E"
    using enabled_native_ids_frame[OF f2(2) f2(3)] E1 by simp
  then have Eim: "(\<lambda>m. nm (path m)) ` {m \<in> set ns'. enabled m} = E"
    by (simp add: enabled_native_ids_image)
  have at: "\<And>k. k < length ns \<Longrightarrow>
              native_step E ((ns ! k)\<lparr>load_before := keep_enabled E (load_before (ns ! k)),
                                      load_after := keep_enabled E (load_after (ns ! k))\<rparr>)
                (ns' ! k)"
  proof -
    fix k assume k: "k < length ns"
    with len have "native_step E (ns1 ! k) (ns' ! k)"
      using list_all2_nthD[OF st] by simp
    with k show "native_step E ((ns ! k)\<lparr>load_before := keep_enabled E (load_before (ns ! k)),
                                      load_after := keep_enabled E (load_after (ns ! k))\<rparr>)
                (ns' ! k)"
      unfolding ns1_def by simp
  qed
  have c2: "\<forall>n\<in>set ns'. \<forall>d\<in>set (deps (load_before n)) \<union> set (deps (load_after n)).
              get_id d \<in> (\<lambda>m. nm (path m)) ` {m \<in> set ns'. enabled m}"
    unfolding Eim
  proof (intro ballI)
    fix n d assume n: "n \<in> set ns'"
      and d: "d \<in> set (deps (load_before n)) \<union> set (deps (load_after n))"
    from n obtain k where k: "k < length ns'" "ns' ! k = n" by (auto simp: in_set_conv_nth)
    with f2(1) len have kn: "k < length ns" by simp
    from at[OF kn] k(2) have s: "native_step E
        ((ns ! k)\<lparr>load_before := keep_enabled E (load_before (ns ! k)),
                  load_after := keep_enabled E (load_after (ns ! k))\<rparr>) n" by simp
    from native_step_fields(3)[OF s]
    have la: "load_after n = keep_enabled E (load_after (ns ! k))" by simp
    from s have lb: "\<forall>d\<in>set (deps (load_before n)).
        d \<in> set (deps (keep_enabled E (load_before (ns ! k)))) \<or> get_id d \<in> E"
      by (simp add: native_step_def)
    from d show "get_id d \<in> E"
      using la lb by (auto dest: keep_enabled_deps)
  qed
  have c6: "\<forall>k<length ns.
            (load_before (ns' ! k) = Some [] \<longrightarrow> load_before (ns ! k) = Some [])
            \<and> (load_after (ns' ! k) = Some [] \<longrightarrow> load_after (ns ! k) = Some [])"
  proof (intro allI impI)
    fix k assume kn: "k < length ns"
    note s = at[OF kn]
    from native_step_fields(3)[OF s]
    have la: "load_after (ns' ! k) = keep_enabled E (load_after (ns ! k))" by simp
    from s have lb: "load_before (ns' ! k) = Some [] \<longrightarrow>
        keep_enabled E (load_before (ns ! k)) = Some []"
      by (simp add: native_step_def)
    from la lb show "(load_before (ns' ! k) = Some [] \<longrightarrow> load_before (ns ! k) = Some [])
            \<and> (load_after (ns' ! k) = Some [] \<longrightarrow> load_after (ns ! k) = Some [])"
      by (auto dest: keep_enabled_empty)
  qed
  from c1 c2 pf f1 f2 c5 c6 show ?thesis by simp
qed

text \<open>
  C1 as stated fails when a disabled native shares its file name with an enabled one:
  the set of enabled names holds \<^verbatim>\<open>x.dll\<close>, the constraint on \<^verbatim>\<open>x.dll\<close> stays, and
  \<^verbatim>\<open>b/x.dll\<close> is a disabled native called \<^verbatim>\<open>x.dll\<close>.
\<close>

theorem update_load_dependencies_purges_counterexample:
  "update_load_dependencies path_name [] same_name_natives = ([], same_name_natives)
   \<and> \<not> enabled (same_name_natives ! 1)
   \<and> path_name (path (same_name_natives ! 1)) = ''x.dll''
   \<and> load_before (same_name_natives ! 2) = Some [mk_dep ''x.dll'' False]
   \<and> dep_id (mk_dep ''x.dll'' False) = Some ''x.dll''"
  by code_simp

text \<open>The method never reads the \<^verbatim>\<open>load_before\<close> of a package: it keeps the
  reference to the disabled package \<^verbatim>\<open>A\<close>.\<close>

lemma update_keeps_package_load_before:
  "update_load_dependencies path_name
     [package ''A'' False None,
      (package ''B'' True None)\<lparr>pkg_load_before := Some [mk_dep ''A'' False]\<rparr>] []
   = ([package ''A'' False None,
       (package ''B'' True None)\<lparr>pkg_load_before := Some [mk_dep ''A'' False]\<rparr>], [])"
  by code_simp

text \<open>Package \<^verbatim>\<open>C\<close> is disabled and \<^verbatim>\<open>gone.dll\<close> is no native: \<^verbatim>\<open>B\<close> keeps only
  \<^verbatim>\<open>A\<close>, the lists that lose their last entry become \<^verbatim>\<open>None\<close>, and the fixed order of
  \<^verbatim>\<open>nighter.dll\<close> and \<^verbatim>\<open>nrsc.dll\<close> is set.\<close>

theorem update_load_dependencies_purges_witness:
  "update_load_dependencies path_name stale_packages stale_natives
   = ([package ''A'' True None, package ''B'' True (Some [mk_dep ''A'' True]),
       package ''C'' False None],
      [native ''x.dll'' True None,
       native ''nighter.dll'' True (Some [mk_dep ''nrsc.dll'' False]),
       native ''nrsc.dll'' True None])
   \<and> get_id (mk_dep ''A'' True)
       \<in> pkg_id ` {q \<in> set [package ''A'' True None,
                               package ''B'' True (Some [mk_dep ''A'' True]),
                               package ''C'' False None]. pkg_enabled q}
   \<and> get_id (mk_dep ''nrsc.dll'' False)
       \<in> (\<lambda>m. path_name (path m))
           ` {m \<in> set [native ''x.dll'' True None,
                        native ''nighter.dll'' True (Some [mk_dep ''nrsc.dll'' False]),
                        native ''nrsc.dll'' True None]. enabled m}"
proof -
  let ?ps = "[package ''A'' True None, package ''B'' True (Some [mk_dep ''A'' True]),
              package ''C'' False None]"
  let ?ns = "[native ''x.dll'' True None,
              native ''nighter.dll'' True (Some [mk_dep ''nrsc.dll'' False]),
              native ''nrsc.dll'' True None]"
  have h: "update_load_dependencies path_name stale_packages stale_natives = (?ps, ?ns)"
    by code_simp
  have p: "package ''B'' True (Some [mk_dep ''A'' True]) \<in> set ?ps" by simp
  have pd: "mk_dep ''A'' True
            \<in> set (deps (pkg_load_after (package ''B'' True (Some [mk_dep ''A'' True]))))"
    by (simp add: deps_def package_def)
  have n: "native ''nighter.dll'' True (Some [mk_dep ''nrsc.dll'' False]) \<in> set ?ns" by simp
  have nd: "mk_dep ''nrsc.dll'' False
            \<in> set (deps (load_before (native ''nighter.dll'' True
                                         (Some [mk_dep ''nrsc.dll'' False]))))
              \<union> set (deps (load_after (native ''nighter.dll'' True
                                          (Some [mk_dep ''nrsc.dll'' False]))))"
    by (simp add: deps_def native_def)
  from update_load_dependencies_purges[OF h] p pd n nd h show ?thesis by blast
qed


section \<open>C3: the pairwise order set last wins\<close>

text \<open>When each name matches one native only, the search loop finds the two.\<close>

lemma find_order_pair_fst_unique:
  "i < length ns \<Longrightarrow> \<forall>k<length ns. matches nm (ns ! k) fc \<longleftrightarrow> k = i
     \<Longrightarrow> fst (find_order_pair nm fc sc ns off f s) = Some (off + i)"
proof (induction ns arbitrary: i off f s)
  case Nil
  then show ?case by simp
next
  case (Cons n ns)
  show ?case
  proof (cases i)
    case 0
    with Cons.prems(2) have m: "matches nm n fc" by auto
    have "\<forall>x\<in>set ns. \<not> matches nm x fc"
    proof
      fix x assume "x \<in> set ns"
      then obtain k where "k < length ns" "ns ! k = x" by (auto simp: in_set_conv_nth)
      with Cons.prems(2)[rule_format, of "Suc k"] 0 show "\<not> matches nm x fc" by auto
    qed
    from find_order_pair_no_first[OF this] m 0 show ?thesis by simp
  next
    case (Suc i')
    with Cons.prems(2) have m: "\<not> matches nm n fc" by auto
    have u: "\<forall>k<length ns. matches nm (ns ! k) fc \<longleftrightarrow> k = i'"
      using Cons.prems(2) Suc by (metis Suc_less_eq length_Cons nat.inject nth_Cons_Suc)
    from Suc Cons.prems(1) have "i' < length ns" by simp
    from Cons.IH[OF this u] m Suc show ?thesis by simp
  qed
qed

lemma find_order_pair_snd_unique:
  "j < length ns \<Longrightarrow> \<forall>k<length ns. matches nm (ns ! k) sc \<longleftrightarrow> k = j
     \<Longrightarrow> \<not> matches nm (ns ! j) fc
     \<Longrightarrow> snd (find_order_pair nm fc sc ns off f s) = Some (off + j)"
proof (induction ns arbitrary: j off f s)
  case Nil
  then show ?case by simp
next
  case (Cons n ns)
  show ?case
  proof (cases j)
    case 0
    with Cons.prems(2,3) have m: "matches nm n sc" "\<not> matches nm n fc" by auto
    have "\<forall>x\<in>set ns. \<not> matches nm x sc"
    proof
      fix x assume "x \<in> set ns"
      then obtain k where "k < length ns" "ns ! k = x" by (auto simp: in_set_conv_nth)
      with Cons.prems(2)[rule_format, of "Suc k"] 0 show "\<not> matches nm x sc" by auto
    qed
    from find_order_pair_no_second[OF this] m 0 show ?thesis by simp
  next
    case (Suc j')
    with Cons.prems(2) have m: "\<not> matches nm n sc" by auto
    have u: "\<forall>k<length ns. matches nm (ns ! k) sc \<longleftrightarrow> k = j'"
      using Cons.prems(2) Suc by (metis Suc_less_eq length_Cons nat.inject nth_Cons_Suc)
    from Suc Cons.prems(1,3) have "j' < length ns" "\<not> matches nm (ns ! j') fc" by simp_all
    from Cons.IH[OF this(1) u this(2)] m Suc show ?thesis by simp
  qed
qed

lemma find_order_pair_unique:
  assumes "i < length ns" "j < length ns" "i \<noteq> j"
    and "\<forall>k<length ns. matches nm (ns ! k) fc \<longleftrightarrow> k = i"
    and "\<forall>k<length ns. matches nm (ns ! k) sc \<longleftrightarrow> k = j"
  shows "find_order_pair nm fc sc ns 0 None None = (Some i, Some j)"
proof -
  from assms(2,3,4) have "\<not> matches nm (ns ! j) fc" by auto
  from find_order_pair_fst_unique[OF assms(1,4), of sc 0 None None]
       find_order_pair_snd_unique[OF assms(2,5) this, of 0 None None]
  show ?thesis by (simp add: prod_eq_iff)
qed

lemma matches_path: "path n' = path n \<Longrightarrow> matches nm n' c = matches nm n c"
  by (simp add: matches_def)

text \<open>The constraints of one native before and after the edge is added.\<close>

lemma truthy_deps: "(if truthy l then deps l else []) = deps l"
  by (simp add: not_truthy_deps)

lemma has_dep_filter: "has_dep x (filter (\<lambda>d. dep_id d \<noteq> Some y) l) \<Longrightarrow> has_dep x l"
  by (auto simp: has_dep_def list_ex_iff)

lemma not_has_dep_filter_self: "\<not> has_dep y (filter (\<lambda>d. dep_id d \<noteq> Some y) l)"
  by (auto simp: has_dep_def list_ex_iff)

lemma not_has_dep_filter_empty: "\<not> has_dep x l \<Longrightarrow> filter (\<lambda>d. dep_id d = Some x) l = []"
  by (auto simp: has_dep_def list_ex_iff filter_empty_conv)

text \<open>What \<open>remove_reverse_dependency\<close> leaves at one position.\<close>

lemma remove_reverse_dependency_nth:
  "k < length ns \<Longrightarrow>
     load_before (remove_reverse_dependency nm ns x y ! k)
       = (if enabled (ns ! k) \<and> nm (path (ns ! k)) = x \<and> truthy (load_before (ns ! k))
          then none_if_empty (filter (\<lambda>d. dep_id d \<noteq> Some y) (deps (load_before (ns ! k))))
          else load_before (ns ! k))"
  by (simp add: remove_reverse_dependency_def)

lemma remove_reverse_dependency_has_dep:
  "k < length ns \<Longrightarrow> has_dep t (deps (load_before (remove_reverse_dependency nm ns x y ! k)))
     \<Longrightarrow> has_dep t (deps (load_before (ns ! k)))"
  by (auto simp: remove_reverse_dependency_nth dest: has_dep_filter split: if_splits)

lemma add_order_edge_after_removal:
  "add_order_edge nm ns fi si =
     (after_removal nm ns fi si)
       [fi := (after_removal nm ns fi si ! fi)\<lparr>load_before :=
          Some (if has_dep (nm (path (ns ! si))) (deps (load_before (after_removal nm ns fi si ! fi)))
                then deps (load_before (after_removal nm ns fi si ! fi))
                else deps (load_before (after_removal nm ns fi si ! fi))
                     @ [mk_dep (nm (path (ns ! si))) False])\<rparr>]"
  unfolding add_order_edge_unfold Let_def after_removal_def truthy_deps by (rule refl)

lemma length_after_removal [simp]: "length (after_removal nm ns fi si) = length ns"
  by (simp add: after_removal_def remove_reverse_dependency_def)

lemma after_removal_has_dep:
  "k < length ns \<Longrightarrow> has_dep t (deps (load_before (after_removal nm ns fi si ! k)))
     \<Longrightarrow> has_dep t (deps (load_before (ns ! k)))"
  by (auto simp: after_removal_def dest: remove_reverse_dependency_has_dep split: if_splits)

text \<open>After the removal the second native does not name the first.\<close>

lemma after_removal_no_reverse:
  assumes "si < length ns" and "enabled (ns ! si)"
  shows "\<not> has_dep (nm (path (ns ! fi))) (deps (load_before (after_removal nm ns fi si ! si)))"
proof (cases "would_create_circular_dependency nm ns (nm (path (ns ! fi))) (nm (path (ns ! si)))")
  case True
  show ?thesis
  proof (cases "truthy (load_before (ns ! si))")
    case t: True
    with True assms show ?thesis
      by (simp add: after_removal_def remove_reverse_dependency_nth not_has_dep_filter_self)
  next
    case False
    with True assms show ?thesis
      by (simp add: after_removal_def remove_reverse_dependency_nth not_truthy_deps has_dep_def)
  qed
next
  case False
  then have "\<not> (enabled (ns ! si) \<and> nm (path (ns ! si)) = nm (path (ns ! si))
                \<and> truthy (load_before (ns ! si))
                \<and> has_dep (nm (path (ns ! fi))) (deps (load_before (ns ! si))))"
    unfolding would_create_circular_dependency_def list_ex_iff
    using assms(1) nth_mem by blast
  with assms(2) have "\<not> has_dep (nm (path (ns ! fi))) (deps (load_before (ns ! si)))"
    by (cases "truthy (load_before (ns ! si))") (auto simp: not_truthy_deps has_dep_def)
  with False show ?thesis by (simp add: after_removal_def)
qed

lemma add_order_edge_no_reverse:
  assumes "fi \<noteq> si" and "si < length ns" and "enabled (ns ! si)"
  shows "\<not> has_dep (nm (path (ns ! fi))) (deps (load_before (add_order_edge nm ns fi si ! si)))"
  using after_removal_no_reverse[OF assms(2,3), of nm fi] assms(1)
  by (simp add: add_order_edge_after_removal)

lemma add_order_edge_single:
  assumes "fi < length ns"
    and "\<not> has_dep (nm (path (ns ! si))) (deps (load_before (ns ! fi)))"
  shows "filter (\<lambda>d. dep_id d = Some (nm (path (ns ! si))))
           (deps (load_before (add_order_edge nm ns fi si ! fi)))
         = [mk_dep (nm (path (ns ! si))) False]"
proof -
  from assms have n: "\<not> has_dep (nm (path (ns ! si)))
                        (deps (load_before (after_removal nm ns fi si ! fi)))"
    using after_removal_has_dep by blast
  with assms(1) show ?thesis
    by (simp add: add_order_edge_after_removal deps_def[of "Some _"]
          not_has_dep_filter_empty mk_dep_def)
qed

lemma length_filter_conj_le:
  "length (filter (\<lambda>x. Q x \<and> P x) xs) \<le> length (filter P xs)"
  by (induction xs) auto

lemma remove_reverse_dependency_count:
  "k < length ns \<Longrightarrow>
     count_id t (load_before (remove_reverse_dependency nm ns x y ! k))
       \<le> count_id t (load_before (ns ! k))"
  by (simp add: remove_reverse_dependency_nth count_id_def length_filter_conj_le)

lemma after_removal_count:
  "k < length ns \<Longrightarrow>
     count_id t (load_before (after_removal nm ns fi si ! k))
       \<le> count_id t (load_before (ns ! k))"
  by (simp add: after_removal_def remove_reverse_dependency_count)

lemma add_order_edge_count:
  assumes "k < length ns"
  shows "count_id t (load_before (add_order_edge nm ns fi si ! k))
           \<le> max 1 (count_id t (load_before (ns ! k)))"
proof (cases "k = fi")
  case True
  let ?L = "deps (load_before (after_removal nm ns fi si ! fi))"
  let ?sn = "nm (path (ns ! si))"
  have le: "length (filter (\<lambda>d. dep_id d = Some t) ?L) \<le> count_id t (load_before (ns ! k))"
    using after_removal_count[OF assms, of t nm fi si] True by (simp add: count_id_def)
  show ?thesis
  proof (cases "has_dep ?sn ?L")
    case h: True
    with True assms le show ?thesis
      by (simp add: add_order_edge_after_removal count_id_def deps_def[of "Some _"])
  next
    case False
    then have "t = ?sn \<Longrightarrow> filter (\<lambda>d. dep_id d = Some t) ?L = []"
      by (simp add: not_has_dep_filter_empty)
    with False True assms le show ?thesis
      by (auto simp: add_order_edge_after_removal count_id_def deps_def[of "Some _"]
            mk_dep_def)
  qed
next
  case False
  with assms after_removal_count[OF assms, of t nm fi si] show ?thesis
    by (simp add: add_order_edge_after_removal)
qed

lemma set_specific_dll_order_count:
  "k < length ns \<Longrightarrow>
     count_id t (load_before (snd (set_specific_dll_order nm ns a b) ! k))
       \<le> max 1 (count_id t (load_before (ns ! k)))"
proof -
  assume k: "k < length ns"
  have "snd (set_specific_dll_order nm ns a b) = ns
        \<or> (\<exists>fi si. snd (set_specific_dll_order nm ns a b) = add_order_edge nm ns fi si)"
    by (auto simp: set_specific_dll_order_def split: option.splits prod.splits)
  then show ?thesis
  proof
    assume "snd (set_specific_dll_order nm ns a b) = ns"
    then show ?thesis by simp
  next
    assume "\<exists>fi si. snd (set_specific_dll_order nm ns a b) = add_order_edge nm ns fi si"
    then obtain fi si where "snd (set_specific_dll_order nm ns a b) = add_order_edge nm ns fi si"
      by blast
    with add_order_edge_count[OF k, of t nm fi si] show ?thesis by simp
  qed
qed

lemma add_order_edge_frame:
  "length (add_order_edge nm ns fi si) = length ns
   \<and> map path (add_order_edge nm ns fi si) = map path ns
   \<and> map enabled (add_order_edge nm ns fi si) = map enabled ns"
  using native_step_frame[OF add_order_edge_step[of nm ns si UNIV fi]] by simp

lemma set_specific_dll_order_found:
  assumes "i < length ns" "j < length ns" "i \<noteq> j"
    and "enabled (ns ! i)" "enabled (ns ! j)"
    and "\<forall>k<length ns. matches nm (ns ! k) (clean a) \<longleftrightarrow> k = i"
    and "\<forall>k<length ns. matches nm (ns ! k) (clean b) \<longleftrightarrow> k = j"
  shows "set_specific_dll_order nm ns a b = (True, add_order_edge nm ns i j)"
  using find_order_pair_unique[OF assms(1,2,3,6,7)] assms(4,5)
  by (simp add: set_specific_dll_order_def)

text \<open>
  C3, as amended. Let \<open>A\<close> and \<open>B\<close> be two different enabled natives such that the name
  given for \<open>A\<close> matches (by file name, path or suffix) \<open>A\<close> and no other native, and the
  name given for \<open>B\<close> matches \<open>B\<close> and no other native. Then
  \<^verbatim>\<open>set_specific_dll_order(A, B)\<close> followed by \<^verbatim>\<open>set_specific_dll_order(B, A)\<close> both return
  \<^verbatim>\<open>True\<close>; afterwards the \<^verbatim>\<open>load_before\<close> of \<open>B\<close> holds exactly one constraint with the
  id of \<open>A\<close>, which is \<^verbatim>\<open>{id: A, optional: False}\<close>, and the \<^verbatim>\<open>load_before\<close> of \<open>A\<close> holds
  no constraint with the id of \<open>B\<close>. Neither call introduces a duplicate: in every list
  the number of constraints with a given id stays as it was or below, or becomes one.
\<close>

theorem pairwise_order_last_wins:
  assumes "i < length ns" "j < length ns" "i \<noteq> j"
    and "enabled (ns ! i)" "enabled (ns ! j)"
    and "\<forall>k<length ns. matches nm (ns ! k) (clean a) \<longleftrightarrow> k = i"
    and "\<forall>k<length ns. matches nm (ns ! k) (clean b) \<longleftrightarrow> k = j"
  shows "fst (set_specific_dll_order nm ns a b)
       \<and> fst (set_specific_dll_order nm (snd (set_specific_dll_order nm ns a b)) b a)
       \<and> filter (\<lambda>d. dep_id d = Some (nm (path (ns ! i))))
           (deps (load_before
              (snd (set_specific_dll_order nm (snd (set_specific_dll_order nm ns a b)) b a)
                 ! j)))
         = [\<lparr>dep_id = Some (nm (path (ns ! i))), dep_optional = Some False\<rparr>]
       \<and> \<not> has_dep (nm (path (ns ! j)))
             (deps (load_before
                (snd (set_specific_dll_order nm (snd (set_specific_dll_order nm ns a b)) b a)
                   ! i)))
       \<and> (\<forall>k<length ns. \<forall>t.
             count_id t (load_before (snd (set_specific_dll_order nm ns a b) ! k))
               \<le> max 1 (count_id t (load_before (ns ! k))))
       \<and> (\<forall>k<length ns. \<forall>t.
             count_id t (load_before
               (snd (set_specific_dll_order nm (snd (set_specific_dll_order nm ns a b)) b a)
                  ! k))
               \<le> max 1 (count_id t (load_before
                                       (snd (set_specific_dll_order nm ns a b) ! k))))"
proof -
  define m1 where "m1 = add_order_edge nm ns i j"
  define m2 where "m2 = add_order_edge nm m1 j i"
  have r1: "set_specific_dll_order nm ns a b = (True, m1)"
    unfolding m1_def by (rule set_specific_dll_order_found[OF assms])
  have fr: "length m1 = length ns" "map path m1 = map path ns" "map enabled m1 = map enabled ns"
    unfolding m1_def using add_order_edge_frame[of nm ns i j] by simp_all
  have pk: "\<And>k. k < length ns \<Longrightarrow> path (m1 ! k) = path (ns ! k)"
    using fr(1,2) by (metis nth_map)
  have ek: "\<And>k. k < length ns \<Longrightarrow> enabled (m1 ! k) = enabled (ns ! k)"
    using fr(1,3) by (metis nth_map)
  have ma: "\<forall>k<length m1. matches nm (m1 ! k) (clean a) \<longleftrightarrow> k = i"
    using assms(6) fr(1) pk by (simp add: matches_def)
  have mb: "\<forall>k<length m1. matches nm (m1 ! k) (clean b) \<longleftrightarrow> k = j"
    using assms(7) fr(1) pk by (simp add: matches_def)
  have r2: "set_specific_dll_order nm m1 b a = (True, m2)"
    unfolding m2_def
    using assms(1-5) fr(1) ek
    by (intro set_specific_dll_order_found[OF _ _ _ _ _ mb ma]) auto
  have n1: "\<not> has_dep (nm (path (ns ! i))) (deps (load_before (m1 ! j)))"
    unfolding m1_def by (rule add_order_edge_no_reverse[OF assms(3,2,5)])
  then have "\<not> has_dep (nm (path (m1 ! i))) (deps (load_before (m1 ! j)))"
    using pk[OF assms(1)] by simp
  with assms(2) fr(1)
  have "filter (\<lambda>d. dep_id d = Some (nm (path (m1 ! i)))) (deps (load_before (m2 ! j)))
        = [mk_dep (nm (path (m1 ! i))) False]"
    unfolding m2_def by (intro add_order_edge_single) simp_all
  then have c3: "filter (\<lambda>d. dep_id d = Some (nm (path (ns ! i)))) (deps (load_before (m2 ! j)))
        = [\<lparr>dep_id = Some (nm (path (ns ! i))), dep_optional = Some False\<rparr>]"
    using pk[OF assms(1)] by (simp add: mk_dep_def)
  have "\<not> has_dep (nm (path (m1 ! j))) (deps (load_before (m2 ! i)))"
    unfolding m2_def
    using assms(1,3,4) fr(1) ek[OF assms(1)]
    by (intro add_order_edge_no_reverse) auto
  then have c4: "\<not> has_dep (nm (path (ns ! j))) (deps (load_before (m2 ! i)))"
    using pk[OF assms(2)] by simp
  have c5: "\<forall>k<length ns. \<forall>t.
             count_id t (load_before (m1 ! k)) \<le> max 1 (count_id t (load_before (ns ! k)))"
    using set_specific_dll_order_count[of _ ns _ nm a b] r1 by simp
  have c6: "\<forall>k<length ns. \<forall>t.
             count_id t (load_before (m2 ! k)) \<le> max 1 (count_id t (load_before (m1 ! k)))"
    using set_specific_dll_order_count[of _ m1 _ nm b a] r2 fr(1) by simp
  from r1 r2 c3 c4 c5 c6 show ?thesis by simp
qed

text \<open>
  C3 as stated fails when the name of one native is a suffix of the path of the other:
  \<^verbatim>\<open>x.dll\<close> matches \<^verbatim>\<open>ax.dll\<close> too. The first call sets \<^verbatim>\<open>ax.dll\<close> before \<^verbatim>\<open>x.dll\<close>; in
  the second call both natives match the first name, no second native is found, and the
  call returns \<^verbatim>\<open>False\<close>: the old edge stays and the new one is not set.
\<close>

theorem pairwise_order_last_wins_counterexample:
  "enabled (native ''ax.dll'' True None) \<and> enabled (native ''x.dll'' True None)
   \<and> set_specific_dll_order path_name
       [native ''ax.dll'' True None, native ''x.dll'' True None] ''ax.dll'' ''x.dll''
     = (True, [native ''ax.dll'' True (Some [mk_dep ''x.dll'' False]),
               native ''x.dll'' True None])
   \<and> set_specific_dll_order path_name
       [native ''ax.dll'' True (Some [mk_dep ''x.dll'' False]), native ''x.dll'' True None]
       ''x.dll'' ''ax.dll''
     = (False, [native ''ax.dll'' True (Some [mk_dep ''x.dll'' False]),
                native ''x.dll'' True None])"
  by code_simp

text \<open>\<^verbatim>\<open>b.dll\<close> names \<^verbatim>\<open>a.dll\<close> at the start; after the two calls it does so with one
  mandatory constraint, and \<^verbatim>\<open>a.dll\<close> has no constraint.\<close>

theorem pairwise_order_last_wins_witness:
  "fst (set_specific_dll_order path_name order_natives ''a.dll'' ''b.dll'')
   \<and> fst (set_specific_dll_order path_name
            (snd (set_specific_dll_order path_name order_natives ''a.dll'' ''b.dll''))
            ''b.dll'' ''a.dll'')
   \<and> filter (\<lambda>d. dep_id d = Some (path_name (path (order_natives ! 0))))
        (deps (load_before
           (snd (set_specific_dll_order path_name
                   (snd (set_specific_dll_order path_name order_natives ''a.dll'' ''b.dll''))
                   ''b.dll'' ''a.dll'') ! 1)))
      = [\<lparr>dep_id = Some (path_name (path (order_natives ! 0))), dep_optional = Some False\<rparr>]
   \<and> \<not> has_dep (path_name (path (order_natives ! 1)))
          (deps (load_before
             (snd (set_specific_dll_order path_name
                     (snd (set_specific_dll_order path_name order_natives ''a.dll'' ''b.dll''))
                     ''b.dll'' ''a.dll'') ! 0)))"
proof -
  have l: "length order_natives = 2" by code_simp
  then have h: "0 < length order_natives" "1 < length order_natives" "(0::nat) \<noteq> 1"
    by simp_all
  have e: "enabled (order_natives ! 0)" "enabled (order_natives ! 1)" by code_simp+
  have a0: "matches path_name (order_natives ! 0) (clean ''a.dll'')" by code_simp
  have a1: "\<not> matches path_name (order_natives ! 1) (clean ''a.dll'')" by code_simp
  have b0: "\<not> matches path_name (order_natives ! 0) (clean ''b.dll'')" by code_simp
  have b1: "matches path_name (order_natives ! 1) (clean ''b.dll'')" by code_simp
  have ma: "\<forall>k<length order_natives.
              matches path_name (order_natives ! k) (clean ''a.dll'') \<longleftrightarrow> k = 0"
    using l a0 a1 by (auto simp: less_Suc_eq numeral_2_eq_2)
  have mb: "\<forall>k<length order_natives.
              matches path_name (order_natives ! k) (clean ''b.dll'') \<longleftrightarrow> k = 1"
    using l b0 b1 by (auto simp: less_Suc_eq numeral_2_eq_2)
  from pairwise_order_last_wins[OF h e ma mb] show ?thesis by blast
qed

text \<open>The state after the two calls.\<close>

lemma pairwise_order_example:
  "snd (set_specific_dll_order path_name
          (snd (set_specific_dll_order path_name order_natives ''a.dll'' ''b.dll''))
          ''b.dll'' ''a.dll'')
   = [native ''mods/a.dll'' True None, native ''b.dll'' True (Some [mk_dep ''a.dll'' False])]"
  by code_simp

section \<open>C6: the optimisation after force-first\<close>

text \<open>The scenario of the specification: \<^verbatim>\<open>x.dll\<close>, \<^verbatim>\<open>nighter.dll\<close> and \<^verbatim>\<open>nrsc.dll\<close>
  enabled, force-first on \<^verbatim>\<open>x.dll\<close>. The direct entry for \<^verbatim>\<open>nrsc.dll\<close> is dropped.\<close>

lemma force_first_scenario:
  "set_force_load_first_native path_name
     [native ''x.dll'' True None, native ''nighter.dll'' True None,
      native ''nrsc.dll'' True None] ''x.dll''
   = (True, [native ''x.dll'' True (Some [mk_dep ''nighter.dll'' False]),
             native ''nighter.dll'' True (Some [mk_dep ''nrsc.dll'' False]),
             native ''nrsc.dll'' True None])"
  by code_simp

text \<open>The optimisation does what its docstring says for the native it finds: no entry
  that is left is reachable through another entry that is left.\<close>

lemma first_index_paths:
  "map path ns' = map path ns \<Longrightarrow>
     first_index (\<lambda>n. matches nm n c) ns' = first_index (\<lambda>n. matches nm n c) ns"
proof (induction ns arbitrary: ns')
  case Nil
  then show ?case by simp
next
  case (Cons n ns)
  then obtain m ms where m: "ns' = m # ms" by (cases ns') auto
  with Cons.prems have "path m = path n" "map path ms = map path ns" by auto
  with Cons.IH[of ms] m show ?case by (simp add: matches_def)
qed

lemma has_dep_mono: "set l' \<subseteq> set l \<Longrightarrow> has_dep x l' \<Longrightarrow> has_dep x l"
  by (auto simp: has_dep_def list_ex_iff)

text \<open>Shrinking one \<^verbatim>\<open>load_before\<close> list creates no dependency.\<close>

lemma dll_depends_on_shrink:
  assumes "j < length ns" and "set l' \<subseteq> set (deps (load_before (ns ! j)))"
    and "dll_depends_on nm (ns[j := (ns ! j)\<lparr>load_before := none_if_empty l'\<rparr>]) y z"
  shows "dll_depends_on nm ns y z"
proof -
  let ?ns' = "ns[j := (ns ! j)\<lparr>load_before := none_if_empty l'\<rparr>]"
  from assms(3) obtain k where k: "k < length ?ns'" and
    p: "enabled (?ns' ! k)" "nm (path (?ns' ! k)) = y" "truthy (load_before (?ns' ! k))"
       "has_dep z (deps (load_before (?ns' ! k)))"
    unfolding dll_depends_on_def list_ex_iff by (auto simp: in_set_conv_nth)
  have "enabled (ns ! k) \<and> nm (path (ns ! k)) = y \<and> truthy (load_before (ns ! k))
        \<and> has_dep z (deps (load_before (ns ! k)))"
  proof (cases "k = j")
    case True
    with p assms(1) have e: "enabled (ns ! j)" "nm (path (ns ! j)) = y" and h: "has_dep z l'"
      by simp_all
    from h assms(2) have hz: "has_dep z (deps (load_before (ns ! j)))" by (rule has_dep_mono[rotated])
    then have "truthy (load_before (ns ! j))"
      by (cases "truthy (load_before (ns ! j))") (auto simp: not_truthy_deps has_dep_def)
    with e hz True show ?thesis by simp
  next
    case False
    with p show ?thesis by simp
  qed
  moreover from k have "ns ! k \<in> set ns" by simp
  ultimately show ?thesis unfolding dll_depends_on_def list_ex_iff by blast
qed

lemma optimize_force_load_dependencies_minimal:
  assumes "first_index (\<lambda>n. matches nm n (clean dll_name)) ns = Some j"
    and "z \<in> set (deps (load_before (optimize_force_load_dependencies nm ns dll_name ! j)))"
    and "y \<in> set (deps (load_before (optimize_force_load_dependencies nm ns dll_name ! j)))"
    and "get_id y \<noteq> get_id z"
  shows "\<not> dll_depends_on nm (optimize_force_load_dependencies nm ns dll_name)
             (get_id y) (get_id z)"
proof (cases "truthy (load_before (ns ! j))")
  case False
  with assms(1,2) show ?thesis
    by (simp add: optimize_force_load_dependencies_def not_truthy_deps)
next
  case True
  from first_index_Some[OF assms(1)] have j: "j < length ns" by simp
  define lb where "lb = deps (load_before (ns ! j))"
  define opt where "opt = filter (\<lambda>d. \<not> reachable_through_chain nm ns lb d) lb"
  have r: "optimize_force_load_dependencies nm ns dll_name
           = ns[j := (ns ! j)\<lparr>load_before := none_if_empty opt\<rparr>]"
    unfolding optimize_force_load_dependencies_def Let_def opt_def lb_def
    using assms(1) True by simp
  from assms(2,3) j have zy: "z \<in> set opt" "y \<in> set opt" unfolding r by simp_all
  then have yl: "y \<in> set lb" and nz: "\<not> reachable_through_chain nm ns lb z"
    unfolding opt_def by simp_all
  show ?thesis
  proof
    assume "dll_depends_on nm (optimize_force_load_dependencies nm ns dll_name)
              (get_id y) (get_id z)"
    then have "dll_depends_on nm ns (get_id y) (get_id z)"
      unfolding r using j by (intro dll_depends_on_shrink[of j ns opt]) (auto simp: opt_def lb_def)
    with yl assms(4) have "reachable_through_chain nm ns lb z"
      unfolding reachable_through_chain_def list_ex_iff by blast
    with nz show False by simp
  qed
qed

lemma map_path_update_load_before:
  "map path (xs[i := (xs ! i)\<lparr>load_before := v\<rparr>]) = map path xs"
proof (cases "i < length xs")
  case True
  then have "(map path xs)[i := path (xs ! i)] = map path xs"
    by (metis list_update_id nth_map)
  then show ?thesis by (simp add: map_update)
next
  case False
  then have "xs[i := (xs ! i)\<lparr>load_before := v\<rparr>] = xs" by (intro list_update_beyond) simp
  then show ?thesis by simp
qed

lemma set_force_load_first_native_unfold:
  assumes "first_index (\<lambda>n. matches nm n (clean dll_name)) ns = Some i"
  shows "\<exists>ns3. map path ns3 = map path ns
           \<and> set_force_load_first_native nm ns dll_name
             = (True, optimize_force_load_dependencies nm ns3 (nm (path (ns3 ! i))))"
proof -
  define ns1 where
    "ns1 = map (\<lambda>other_native.
                  if other_native \<noteq> ns ! i
                  then (if truthy (load_before other_native)
                           \<and> has_only_specific_order_deps nm other_native
                        then other_native
                        else other_native\<lparr>load_before := None\<rparr>)
                  else other_native) ns"
  define ns2 where
    "ns2 = ns1[i := (ns1 ! i)\<lparr>load_before :=
              (if other_dll_names nm ns1 (ns1 ! i) \<noteq> []
               then Some (map (\<lambda>x. mk_dep x False) (other_dll_names nm ns1 (ns1 ! i)))
               else None)\<rparr>]"
  define ns3 where "ns3 = ensure_specific_dll_orders nm ns2"
  have 1: "map path ns1 = map path ns" unfolding ns1_def by (induction ns) auto
  have 2: "map path ns2 = map path ns1" unfolding ns2_def by (rule map_path_update_load_before)
  have "list_all2 (native_step UNIV) ns2 ns3"
    unfolding ns3_def by (rule ensure_specific_dll_orders_step) simp
  from native_step_frame[OF this] have 3: "map path ns3 = map path ns2" by simp
  have "set_force_load_first_native nm ns dll_name
        = (True, optimize_force_load_dependencies nm ns3 (nm (path (ns3 ! i))))"
    unfolding set_force_load_first_native_def Let_def ns3_def ns2_def ns1_def
    using assms by simp
  with 1 2 3 show ?thesis by auto
qed

text \<open>So the list of the target is minimal whenever the search by the file name of the
  target ends at the target itself.\<close>

lemma set_force_load_first_native_minimal:
  assumes "first_index (\<lambda>n. matches nm n (clean dll_name)) ns = Some i"
    and "first_index (\<lambda>n. matches nm n (clean (nm (path (ns ! i))))) ns = Some i"
    and "z \<in> set (deps (load_before (snd (set_force_load_first_native nm ns dll_name) ! i)))"
    and "y \<in> set (deps (load_before (snd (set_force_load_first_native nm ns dll_name) ! i)))"
    and "get_id y \<noteq> get_id z"
  shows "\<not> dll_depends_on nm (snd (set_force_load_first_native nm ns dll_name))
             (get_id y) (get_id z)"
proof -
  from set_force_load_first_native_unfold[OF assms(1)] obtain ns3 where
    p: "map path ns3 = map path ns" and
    r: "set_force_load_first_native nm ns dll_name
        = (True, optimize_force_load_dependencies nm ns3 (nm (path (ns3 ! i))))" by blast
  from first_index_Some[OF assms(1)] have i: "i < length ns" by simp
  from p have "length ns3 = length ns" by (metis length_map)
  with p i have pi: "path (ns3 ! i) = path (ns ! i)" by (metis nth_map)
  have f: "first_index (\<lambda>n. matches nm n (clean (nm (path (ns3 ! i))))) ns3 = Some i"
    unfolding pi using first_index_paths[OF p] assms(2) by simp
  from optimize_force_load_dependencies_minimal[OF f _ _ assms(5)] assms(3,4)
  show ?thesis unfolding r by simp
qed

text \<open>
  C6. The claim is that after \<^verbatim>\<open>set_force_load_first_native(X)\<close> the \<^verbatim>\<open>load_before\<close> of
  \<open>X\<close> holds no target \<open>Z\<close> that another target \<open>Y\<close> of the same list has in its own
  \<^verbatim>\<open>load_before\<close>. The method hands the file name of the target to
  \<^verbatim>\<open>_optimize_force_load_dependencies\<close>, which searches the natives again and stops at the
  first one matching that name. In the state evaluated here two natives are called
  \<^verbatim>\<open>x.dll\<close>; the call names the second by its path, the optimisation finds the first,
  and the call returns \<^verbatim>\<open>True\<close> with the target keeping \<^verbatim>\<open>nrsc.dll\<close> next to
  \<^verbatim>\<open>nighter.dll\<close>, whose \<^verbatim>\<open>load_before\<close> holds \<^verbatim>\<open>nrsc.dll\<close>.
\<close>

theorem force_first_keeps_redundant_edge:
  "set_force_load_first_native path_name
     [native ''ModA/x.dll'' True None, native ''ModB/x.dll'' True None,
      native ''nighter.dll'' True None, native ''nrsc.dll'' True None] ''ModB/x.dll''
   = (True, [native ''ModA/x.dll'' True None,
             native ''ModB/x.dll'' True
               (Some [mk_dep ''x.dll'' False, mk_dep ''nighter.dll'' False,
                      mk_dep ''nrsc.dll'' False]),
             native ''nighter.dll'' True (Some [mk_dep ''nrsc.dll'' False]),
             native ''nrsc.dll'' True None])"
  by code_simp



end
